theory Spec2Isabelle
  imports Main "HOL-Library.Log_Nat"
begin

section \<open>The element type and the outcomes of an operation\<close>

text \<open>
  \<^verbatim>\<open>Vector<T>\<close> is a template over the element type \<open>T\<close>. An object of \<open>T\<close> is modelled
  by its value (type \<open>'a\<close>); what the operations of \<open>T\<close> do is a parameter of the model:
  which of its constructors and assignments raise (and what, type \<open>'e\<close>), what a move
  leaves in its source, and the two traits \<^verbatim>\<open>UninitializedMoveOrCopy\<close> tests. A copy or
  a move that succeeds gives its target the value of its source; one that raises leaves
  both operands as they were.
\<close>

record ('a, 'e) elem_type =
  nothrow_move_constructible :: bool
  copy_constructible :: bool
  copy_ctor_throws :: "'a \<Rightarrow> 'e option"
  move_ctor_throws :: "'a \<Rightarrow> 'e option"
  copy_assign_throws :: "'a \<Rightarrow> 'e option"
  move_assign_throws :: "'a \<Rightarrow> 'e option"
  moved_from :: "'a \<Rightarrow> 'a"
  value_ctor :: "'e + 'a"

text \<open>
  An operation returns (\<open>Done\<close>), raises an exception and leaves a state behind
  (\<open>Throw\<close>), stops at a failed \<^verbatim>\<open>assert\<close> (\<open>AssertFail\<close>, the build without \<^verbatim>\<open>NDEBUG\<close>),
  or leaves the defined behaviour of C++ (\<open>Undefined\<close>): a read or a destruction of a slot
  that holds no object, an access outside the buffer, a pointer moved before its buffer,
  a standard algorithm called on a range that is not one.
\<close>

datatype ('e, 's, 'r) outcome = Done 'r | Throw 'e 's | AssertFail | Undefined

text \<open>A move constructor declared \<^verbatim>\<open>noexcept\<close> lets no exception out.\<close>

definition move_ctor_raises :: "('a, 'e) elem_type \<Rightarrow> 'a \<Rightarrow> 'e option" where
  "move_ctor_raises T x = (if nothrow_move_constructible T then None else move_ctor_throws T x)"

text \<open>The constructor calls \<^verbatim>\<open>T(const T&)\<close> and \<^verbatim>\<open>T(T&&)\<close> as results: the exception or the new value.\<close>

definition copy_construct :: "('a, 'e) elem_type \<Rightarrow> 'a \<Rightarrow> 'e + 'a" where
  "copy_construct T x = (case copy_ctor_throws T x of Some e \<Rightarrow> Inl e | None \<Rightarrow> Inr x)"

definition move_construct :: "('a, 'e) elem_type \<Rightarrow> 'a \<Rightarrow> 'e + 'a" where
  "move_construct T x = (case move_ctor_raises T x of Some e \<Rightarrow> Inl e | None \<Rightarrow> Inr x)"

section \<open>Raw memory\<close>

text \<open>
  The members \<^verbatim>\<open>buffer_\<close>, \<^verbatim>\<open>capacity_\<close>, \<^verbatim>\<open>data_\<close> and \<^verbatim>\<open>size_\<close> are the fields
  \<open>buffer_m\<close>, \<open>capacity_m\<close>, \<open>data_m\<close> and \<open>size_m\<close>. A buffer is the list of its slots:
  \<open>None\<close> is raw memory, \<open>Some x\<close> a live object of value \<open>x\<close>. A pointer into a buffer is the index of its slot, \<^verbatim>\<open>nullptr\<close> is the empty
  buffer. \<^verbatim>\<open>size_t\<close> is \<open>nat\<close>: a buffer of \<open>n\<close> objects has \<open>n\<close> below \<open>2^63\<close>, so
  \<^verbatim>\<open>size_ * 2\<close> does not wrap, and every subtraction that would wrap is a branch of its
  own. \<^verbatim>\<open>operator new\<close> is taken to succeed.
\<close>

type_synonym 'a buffer = "'a option list"

record 'a RawMemory =
  buffer_m :: "'a buffer"
  capacity_m :: nat

definition Allocate :: "nat \<Rightarrow> 'a buffer" where
  "Allocate n = replicate n None"

definition RawMemory_default :: "'a RawMemory" where
  "RawMemory_default = \<lparr>buffer_m = [], capacity_m = 0\<rparr>"

definition RawMemory_sized :: "nat \<Rightarrow> 'a RawMemory" where
  "RawMemory_sized capacity = \<lparr>buffer_m = Allocate capacity, capacity_m = capacity\<rparr>"

text \<open>\<^verbatim>\<open>operator+\<close> and \<^verbatim>\<open>operator[]\<close>: \<open>None\<close> when the \<^verbatim>\<open>assert\<close> fails.\<close>

definition RawMemory_plus :: "'a RawMemory \<Rightarrow> nat \<Rightarrow> nat option" where
  "RawMemory_plus m offset = (if offset \<le> capacity_m m then Some offset else None)"

definition RawMemory_index :: "'a RawMemory \<Rightarrow> nat \<Rightarrow> nat option" where
  "RawMemory_index m index = (if index < capacity_m m then Some index else None)"

definition RawMemory_Swap :: "'a RawMemory \<times> 'a RawMemory \<Rightarrow> 'a RawMemory \<times> 'a RawMemory" where
  "RawMemory_Swap p = (case p of (this, other) \<Rightarrow>
     (this\<lparr>buffer_m := buffer_m other, capacity_m := capacity_m other\<rparr>,
      other\<lparr>buffer_m := buffer_m this, capacity_m := capacity_m this\<rparr>))"

section \<open>Objects in raw memory: the standard algorithms the vector calls\<close>

definition live :: "'a buffer \<Rightarrow> nat \<Rightarrow> bool" where
  "live buf i = (i < length buf \<and> buf ! i \<noteq> None)"

text \<open>Placement \<^verbatim>\<open>new (buf + p) T(...)\<close> of a value: \<open>None\<close> outside the buffer.\<close>

definition construct_at :: "'a buffer \<Rightarrow> nat \<Rightarrow> 'a \<Rightarrow> 'a buffer option" where
  "construct_at buf p x = (if p < length buf then Some (buf[p := Some x]) else None)"

text \<open>\<^verbatim>\<open>std::destroy_n(first, n)\<close> (and \<^verbatim>\<open>DestroyN\<close>): \<open>None\<close> when a slot holds no object.\<close>

fun destroy_n :: "'a buffer \<Rightarrow> nat \<Rightarrow> nat \<Rightarrow> 'a buffer option" where
  "destroy_n buf first 0 = Some buf"
| "destroy_n buf first (Suc n) =
     (if live buf first then destroy_n (buf[first := None]) (Suc first) n else None)"

text \<open>
  \<^verbatim>\<open>std::uninitialized_copy_n(first, count, d_first)\<close> from buffer \<open>src\<close> into buffer
  \<open>dst\<close>: when a copy raises, the objects built so far are destroyed and the exception
  goes on.
\<close>

fun uninitialized_copy_n ::
  "('a, 'e) elem_type \<Rightarrow> 'a buffer \<Rightarrow> nat \<Rightarrow> nat \<Rightarrow> 'a buffer \<Rightarrow> nat \<Rightarrow> ('e, 'a buffer, 'a buffer) outcome" where
  "uninitialized_copy_n T src first 0 dst d_first = Done dst"
| "uninitialized_copy_n T src first (Suc n) dst d_first =
     (if \<not> live src first \<or> length dst \<le> d_first then Undefined
      else case copy_ctor_throws T (the (src ! first)) of
        Some e \<Rightarrow> Throw e dst
      | None \<Rightarrow>
         (case uninitialized_copy_n T src (Suc first) n (dst[d_first := src ! first]) (Suc d_first) of
            Throw e dst' \<Rightarrow> Throw e (dst'[d_first := None])
          | r \<Rightarrow> r))"

text \<open>
  \<^verbatim>\<open>std::uninitialized_move_n\<close>: the same with the move constructor; each source moved
  from stays a live object of value \<open>moved_from\<close>, also when a later move raises.
\<close>

fun uninitialized_move_n ::
  "('a, 'e) elem_type \<Rightarrow> 'a buffer \<Rightarrow> nat \<Rightarrow> nat \<Rightarrow> 'a buffer \<Rightarrow> nat
     \<Rightarrow> ('e, 'a buffer \<times> 'a buffer, 'a buffer \<times> 'a buffer) outcome" where
  "uninitialized_move_n T src first 0 dst d_first = Done (src, dst)"
| "uninitialized_move_n T src first (Suc n) dst d_first =
     (if \<not> live src first \<or> length dst \<le> d_first then Undefined
      else case move_ctor_raises T (the (src ! first)) of
        Some e \<Rightarrow> Throw e (src, dst)
      | None \<Rightarrow>
         (case uninitialized_move_n T (src[first := Some (moved_from T (the (src ! first)))]) (Suc first) n
                 (dst[d_first := src ! first]) (Suc d_first) of
            Throw e (src', dst') \<Rightarrow> Throw e (src', dst'[d_first := None])
          | r \<Rightarrow> r))"



text \<open>
  The move assignment \<^verbatim>\<open>buf[d] = std::move(buf[s])\<close> between two live objects of one
  buffer.
\<close>

definition move_assign :: "('a, 'e) elem_type \<Rightarrow> 'a buffer \<Rightarrow> nat \<Rightarrow> nat \<Rightarrow> ('e, 'a buffer, 'a buffer) outcome" where
  "move_assign T buf d s =
     (if \<not> live buf s \<or> \<not> live buf d then Undefined
      else case move_assign_throws T (the (buf ! s)) of
        Some e \<Rightarrow> Throw e buf
      | None \<Rightarrow> Done (buf[s := Some (moved_from T (the (buf ! s))), d := buf ! s]))"

text \<open>
  \<^verbatim>\<open>std::move_backward(first, last, d_last)\<close> inside one buffer. The standard requires
  \<open>[first, last)\<close> to be a range: with \<open>last\<close> before \<open>first\<close> the call is undefined.
\<close>

fun move_backward_n :: "('a, 'e) elem_type \<Rightarrow> 'a buffer \<Rightarrow> nat \<Rightarrow> nat \<Rightarrow> nat \<Rightarrow> ('e, 'a buffer, 'a buffer) outcome" where
  "move_backward_n T buf 0 last_p d_last = Done buf"
| "move_backward_n T buf (Suc n) last_p d_last =
     (if last_p = 0 \<or> d_last = 0 then Undefined
      else case move_assign T buf (d_last - 1) (last_p - 1) of
        Done buf' \<Rightarrow> move_backward_n T buf' n (last_p - 1) (d_last - 1)
      | r \<Rightarrow> r)"

definition move_backward :: "('a, 'e) elem_type \<Rightarrow> 'a buffer \<Rightarrow> nat \<Rightarrow> nat \<Rightarrow> nat \<Rightarrow> ('e, 'a buffer, 'a buffer) outcome" where
  "move_backward T buf first last_p d_last =
     (if last_p < first then Undefined else move_backward_n T buf (last_p - first) last_p d_last)"

section \<open>The vector\<close>

record 'a Vector =
  data_m :: "'a RawMemory"
  size_m :: nat

text \<open>An iterator or a reference of a vector is the index of its slot in \<open>data_m\<close>: \<^verbatim>\<open>begin()\<close> is 0.\<close>

definition Vector_default :: "'a Vector" where
  "Vector_default = \<lparr>data_m = RawMemory_default, size_m = 0\<rparr>"

definition Size :: "'a Vector \<Rightarrow> nat" where
  "Size v = size_m v"

definition Capacity :: "'a Vector \<Rightarrow> nat" where
  "Capacity v = capacity_m (data_m v)"

definition Vector_begin :: "'a Vector \<Rightarrow> nat" where
  "Vector_begin v = 0"

definition Vector_end :: "'a Vector \<Rightarrow> nat" where
  "Vector_end v = size_m v"

definition set_buffer :: "'a Vector \<Rightarrow> 'a buffer \<Rightarrow> 'a Vector" where
  "set_buffer v buf = v\<lparr>data_m := (data_m v)\<lparr>buffer_m := buf\<rparr>\<rparr>"

text \<open>\<^verbatim>\<open>Destroy\<close>, \<^verbatim>\<open>DestroyN\<close> and the destructor, which is defined when \<^verbatim>\<open>DestroyN\<close> is.\<close>

definition Destroy :: "'a buffer \<Rightarrow> nat \<Rightarrow> 'a buffer option" where
  "Destroy buf i = (if live buf i then Some (buf[i := None]) else None)"

fun DestroyN :: "'a buffer \<Rightarrow> nat \<Rightarrow> nat \<Rightarrow> 'a buffer option" where
  "DestroyN buf first 0 = Some buf"
| "DestroyN buf first (Suc n) =
     (case Destroy buf first of None \<Rightarrow> None | Some buf' \<Rightarrow> DestroyN buf' (Suc first) n)"

definition Vector_dtor :: "'a Vector \<Rightarrow> bool" where
  "Vector_dtor v = (DestroyN (buffer_m (data_m v)) 0 (size_m v) \<noteq> None)"

text \<open>\<^verbatim>\<open>operator[]\<close>: the index, when both assertions hold.\<close>

definition Vector_index :: "'a Vector \<Rightarrow> nat \<Rightarrow> nat option" where
  "Vector_index v index = (if index < size_m v then RawMemory_index (data_m v) index else None)"

definition UninitializedMoveOrCopy ::
  "('a, 'e) elem_type \<Rightarrow> 'a buffer \<Rightarrow> nat \<Rightarrow> nat \<Rightarrow> 'a buffer \<Rightarrow> nat
     \<Rightarrow> ('e, 'a buffer \<times> 'a buffer, 'a buffer \<times> 'a buffer) outcome" where
  "UninitializedMoveOrCopy T src from_p n dst to_p =
     (if nothrow_move_constructible T \<or> \<not> copy_constructible T
      then uninitialized_move_n T src from_p n dst to_p
      else case uninitialized_copy_n T src from_p n dst to_p of
        Done dst' \<Rightarrow> Done (src, dst')
      | Throw e dst' \<Rightarrow> Throw e (src, dst')
      | AssertFail \<Rightarrow> AssertFail
      | Undefined \<Rightarrow> Undefined)"

text \<open>
  The three statements that \<^verbatim>\<open>Reserve\<close>, \<^verbatim>\<open>PushBack\<close> and \<^verbatim>\<open>EmplaceBack\<close> share:
  \<^verbatim>\<open>UninitializedMoveOrCopy(data_.GetAddress(), size_, new_data.GetAddress());
  std::destroy_n(data_.GetAddress(), size_); data_.Swap(new_data);\<close>
  after which \<^verbatim>\<open>new_data\<close>, holding the old buffer, is released.
\<close>

definition transfer_and_swap ::
  "('a, 'e) elem_type \<Rightarrow> 'a Vector \<Rightarrow> 'a RawMemory \<Rightarrow> ('e, 'a Vector, 'a Vector) outcome" where
  "transfer_and_swap T v new_data =
     (case UninitializedMoveOrCopy T (buffer_m (data_m v)) 0 (size_m v) (buffer_m new_data) 0 of
        Done (old, new) \<Rightarrow>
          (case destroy_n old 0 (size_m v) of
             None \<Rightarrow> Undefined
           | Some old' \<Rightarrow>
               Done (v\<lparr>data_m := fst (RawMemory_Swap ((data_m v)\<lparr>buffer_m := old'\<rparr>, new_data\<lparr>buffer_m := new\<rparr>))\<rparr>))
      | Throw e (old, new) \<Rightarrow> Throw e (set_buffer v old)
      | AssertFail \<Rightarrow> AssertFail
      | Undefined \<Rightarrow> Undefined)"


text \<open>
  \<^verbatim>\<open>new (m + offset) T(args...)\<close> with \<^verbatim>\<open>RawMemory::operator+\<close>: the assertion, then the
  constructor call, whose result \<open>c\<close> is the exception it raises or the value it builds.
\<close>

definition construct_plus ::
  "'a RawMemory \<Rightarrow> nat \<Rightarrow> 'e + 'a \<Rightarrow> 's \<Rightarrow> ('e, 's, 'a RawMemory) outcome" where
  "construct_plus m offset c s =
     (case RawMemory_plus m offset of
        None \<Rightarrow> AssertFail
      | Some p \<Rightarrow>
         (case c of
            Inl e \<Rightarrow> Throw e s
          | Inr x \<Rightarrow>
             (case construct_at (buffer_m m) p x of
                None \<Rightarrow> Undefined
              | Some buf \<Rightarrow> Done (m\<lparr>buffer_m := buf\<rparr>))))"

text \<open>
  \<^verbatim>\<open>PushBack(value)\<close> and \<^verbatim>\<open>EmplaceBack(args...)\<close>; \<open>c\<close> is the result of the constructor
  call \<^verbatim>\<open>T(std::forward<...>(...))\<close>.
\<close>

definition PushBack :: "('a, 'e) elem_type \<Rightarrow> 'e + 'a \<Rightarrow> 'a Vector \<Rightarrow> ('e, 'a Vector, 'a Vector) outcome" where
  "PushBack T c v =
     (case (if size_m v = Capacity v
            then (case construct_plus (RawMemory_sized (if size_m v = 0 then 1 else size_m v * 2)) (size_m v) c v of
                    Done new_data \<Rightarrow> transfer_and_swap T v new_data
                  | Throw e s \<Rightarrow> Throw e s
                  | AssertFail \<Rightarrow> AssertFail
                  | Undefined \<Rightarrow> Undefined)
            else (case construct_plus (data_m v) (size_m v) c v of
                    Done m \<Rightarrow> Done (v\<lparr>data_m := m\<rparr>)
                  | Throw e s \<Rightarrow> Throw e s
                  | AssertFail \<Rightarrow> AssertFail
                  | Undefined \<Rightarrow> Undefined)) of
        Done v' \<Rightarrow> Done (v'\<lparr>size_m := size_m v' + 1\<rparr>)
      | r \<Rightarrow> r)"

definition PopBack :: "'a Vector \<Rightarrow> ('e, 'a Vector, 'a Vector) outcome" where
  "PopBack v =
     (case RawMemory_plus (data_m v) (size_m v) of
        None \<Rightarrow> AssertFail
      | Some p \<Rightarrow>
         if p = 0 then Undefined
         else (case destroy_n (buffer_m (data_m v)) (p - 1) 1 of
                 None \<Rightarrow> Undefined
               | Some buf \<Rightarrow> Done ((set_buffer v buf)\<lparr>size_m := size_m v - 1\<rparr>)))"

definition EmplaceBack ::
  "('a, 'e) elem_type \<Rightarrow> 'e + 'a \<Rightarrow> 'a Vector \<Rightarrow> ('e, 'a Vector, nat \<times> 'a Vector) outcome" where
  "EmplaceBack T c v =
     (case (if size_m v < Capacity v
            then (case construct_plus (data_m v) (size_m v) c v of
                    Done m \<Rightarrow> Done (v\<lparr>data_m := m\<rparr>)
                  | Throw e s \<Rightarrow> Throw e s
                  | AssertFail \<Rightarrow> AssertFail
                  | Undefined \<Rightarrow> Undefined)
            else (case construct_plus (RawMemory_sized (if size_m v = 0 then 1 else size_m v * 2)) (size_m v) c v of
                    Done new_data \<Rightarrow> transfer_and_swap T v new_data
                  | Throw e s \<Rightarrow> Throw e s
                  | AssertFail \<Rightarrow> AssertFail
                  | Undefined \<Rightarrow> Undefined)) of
        Done v' \<Rightarrow> Done (size_m v' + 1 - 1, v'\<lparr>size_m := size_m v' + 1\<rparr>)
      | Throw e s \<Rightarrow> Throw e s
      | AssertFail \<Rightarrow> AssertFail
      | Undefined \<Rightarrow> Undefined)"

text \<open>
  The two constructions inside one buffer that \<^verbatim>\<open>EmplaceWithoutRealoc\<close> uses besides
  \<^verbatim>\<open>std::move_backward\<close>: \<^verbatim>\<open>new (buf + d) T(std::move(buf[s]))\<close>, and the move assignment
  \<^verbatim>\<open>buf[d] = std::move(x)\<close> from a local object of value \<open>x\<close>.
\<close>

definition move_construct_in :: "('a, 'e) elem_type \<Rightarrow> 'a buffer \<Rightarrow> nat \<Rightarrow> nat \<Rightarrow> ('e, 'a buffer, 'a buffer) outcome" where
  "move_construct_in T buf d s =
     (if \<not> live buf s \<or> length buf \<le> d then Undefined
      else case move_ctor_raises T (the (buf ! s)) of
        Some e \<Rightarrow> Throw e buf
      | None \<Rightarrow> Done (buf[s := Some (moved_from T (the (buf ! s))), d := buf ! s]))"

definition move_assign_value :: "('a, 'e) elem_type \<Rightarrow> 'a buffer \<Rightarrow> nat \<Rightarrow> 'a \<Rightarrow> ('e, 'a buffer, 'a buffer) outcome" where
  "move_assign_value T buf d x =
     (if \<not> live buf d then Undefined
      else case move_assign_throws T x of
        Some e \<Rightarrow> Throw e buf
      | None \<Rightarrow> Done (buf[d := Some x]))"

text \<open>
  \<^verbatim>\<open>EmplaceWithRealoc\<close>. The first two \<^verbatim>\<open>catch\<close> blocks raise again; the third, around the
  transfer of the suffix, destroys the prefix of the new buffer and does not: the function
  goes on to destroy the old objects and to swap the buffers. With \<open>size_m v < offset\<close>
  the count \<^verbatim>\<open>size_ - offset\<close> wraps around.
\<close>

definition EmplaceWithRealoc ::
  "('a, 'e) elem_type \<Rightarrow> nat \<Rightarrow> 'e + 'a \<Rightarrow> 'a Vector \<Rightarrow> ('e, 'a Vector, 'a Vector) outcome" where
  "EmplaceWithRealoc T offset c v =
     (let new_data = RawMemory_sized (if size_m v = 0 then 1 else size_m v * 2) in
      case c of
        Inl e \<Rightarrow> Throw e v
      | Inr x \<Rightarrow>
         (case construct_at (buffer_m new_data) offset x of
            None \<Rightarrow> Undefined
          | Some nb \<Rightarrow>
             (case UninitializedMoveOrCopy T (buffer_m (data_m v)) 0 offset nb 0 of
                Throw e (old, new) \<Rightarrow>
                  (case RawMemory_plus new_data offset of
                     None \<Rightarrow> AssertFail
                   | Some p \<Rightarrow>
                      (case Destroy new p of
                         None \<Rightarrow> Undefined
                       | Some new' \<Rightarrow> Throw e (set_buffer v old)))
              | AssertFail \<Rightarrow> AssertFail
              | Undefined \<Rightarrow> Undefined
              | Done (old, new) \<Rightarrow>
                  if size_m v < offset then Undefined
                  else
                    (case (case UninitializedMoveOrCopy T old offset (size_m v - offset) new (offset + 1) of
                             Throw e (old', new') \<Rightarrow>
                               (case destroy_n new' 0 offset of
                                  None \<Rightarrow> Undefined
                                | Some new'' \<Rightarrow> Done (old', new''))
                           | r \<Rightarrow> r) of
                       Done (old', new') \<Rightarrow>
                         (case destroy_n old' 0 (size_m v) of
                            None \<Rightarrow> Undefined
                          | Some old'' \<Rightarrow>
                              Done (v\<lparr>data_m := fst (RawMemory_Swap ((data_m v)\<lparr>buffer_m := old''\<rparr>,
                                                                       new_data\<lparr>buffer_m := new'\<rparr>))\<rparr>))
                     | Throw e (old', new') \<Rightarrow> Throw e (set_buffer v old')
                     | AssertFail \<Rightarrow> AssertFail
                     | Undefined \<Rightarrow> Undefined))))"

text \<open>
  \<^verbatim>\<open>EmplaceWithoutRealoc\<close>: the temporary, then \<^verbatim>\<open>new(end()) T(std::forward<T>(*(end()-1)))\<close>,
  then \<^verbatim>\<open>std::move_backward(begin() + offset, end() - 1, end())\<close>, then the assignment of the
  temporary. On an empty vector \<^verbatim>\<open>end() - 1\<close> points before the buffer.
\<close>

definition EmplaceWithoutRealoc ::
  "('a, 'e) elem_type \<Rightarrow> nat \<Rightarrow> 'e + 'a \<Rightarrow> 'a Vector \<Rightarrow> ('e, 'a Vector, 'a Vector) outcome" where
  "EmplaceWithoutRealoc T offset c v =
     (case c of
        Inl e \<Rightarrow> Throw e v
      | Inr new_data \<Rightarrow>
         if Vector_end v = 0 then Undefined
         else
           (case move_construct_in T (buffer_m (data_m v)) (Vector_end v) (Vector_end v - 1) of
              Done buf1 \<Rightarrow>
                (case move_backward T buf1 (Vector_begin v + offset) (Vector_end v - 1) (Vector_end v) of
                   Done buf2 \<Rightarrow>
                     (case move_assign_value T buf2 (Vector_begin v + offset) new_data of
                        Done buf3 \<Rightarrow> Done (set_buffer v buf3)
                      | Throw e buf3 \<Rightarrow> Throw e (set_buffer v buf3)
                      | AssertFail \<Rightarrow> AssertFail
                      | Undefined \<Rightarrow> Undefined)
                 | Throw e buf2 \<Rightarrow> Throw e (set_buffer v buf2)
                 | AssertFail \<Rightarrow> AssertFail
                 | Undefined \<Rightarrow> Undefined)
            | Throw e buf1 \<Rightarrow> Throw e (set_buffer v buf1)
            | AssertFail \<Rightarrow> AssertFail
            | Undefined \<Rightarrow> Undefined))"

text \<open>\<^verbatim>\<open>Emplace(pos, args...)\<close>: \<open>pos\<close> is the iterator, \<open>c\<close> the result of \<^verbatim>\<open>T(args...)\<close>.\<close>

definition Emplace ::
  "('a, 'e) elem_type \<Rightarrow> nat \<Rightarrow> 'e + 'a \<Rightarrow> 'a Vector \<Rightarrow> ('e, 'a Vector, nat \<times> 'a Vector) outcome" where
  "Emplace T pos c v =
     (let offset = pos - Vector_begin v in
      case (if size_m v = Capacity v then EmplaceWithRealoc T offset c v
            else EmplaceWithoutRealoc T offset c v) of
        Done v' \<Rightarrow> Done (Vector_begin v' + offset, v'\<lparr>size_m := size_m v' + 1\<rparr>)
      | Throw e s \<Rightarrow> Throw e s
      | AssertFail \<Rightarrow> AssertFail
      | Undefined \<Rightarrow> Undefined)"

text \<open>\<^verbatim>\<open>Insert(pos, const T&)\<close> and \<^verbatim>\<open>Insert(pos, T&&)\<close>.\<close>

definition Insert ::
  "('a, 'e) elem_type \<Rightarrow> nat \<Rightarrow> 'a \<Rightarrow> 'a Vector \<Rightarrow> ('e, 'a Vector, nat \<times> 'a Vector) outcome" where
  "Insert T pos val v = Emplace T pos (copy_construct T val) v"


text \<open>
  \<^verbatim>\<open>Erase(pos)\<close>. The loop \<^verbatim>\<open>for (; iter < size_-1; ++iter) data_[iter] = std::move(data_[iter+1])\<close>
  goes through \<^verbatim>\<open>RawMemory::operator[]\<close> and its assertion. On an empty vector \<^verbatim>\<open>end()-1\<close>
  points before the buffer.
\<close>

function Erase_loop ::
  "('a, 'e) elem_type \<Rightarrow> 'a RawMemory \<Rightarrow> nat \<Rightarrow> nat \<Rightarrow> ('e, 'a RawMemory, nat \<times> 'a RawMemory) outcome" where
  "Erase_loop T m iter sz =
     (if iter < sz - 1 then
        (case RawMemory_index m (iter + 1) of
           None \<Rightarrow> AssertFail
         | Some s \<Rightarrow>
            (case RawMemory_index m iter of
               None \<Rightarrow> AssertFail
             | Some d \<Rightarrow>
                (case move_assign T (buffer_m m) d s of
                   Done buf \<Rightarrow> Erase_loop T (m\<lparr>buffer_m := buf\<rparr>) (iter + 1) sz
                 | Throw e buf \<Rightarrow> Throw e (m\<lparr>buffer_m := buf\<rparr>)
                 | AssertFail \<Rightarrow> AssertFail
                 | Undefined \<Rightarrow> Undefined)))
      else Done (iter, m))"
  by pat_completeness auto
termination
  by (relation "measure (\<lambda>(T, m, iter, sz). sz - 1 - iter)") auto

declare Erase_loop.simps [simp del]

definition Erase ::
  "('a, 'e) elem_type \<Rightarrow> nat \<Rightarrow> 'a Vector \<Rightarrow> ('e, 'a Vector, nat \<times> 'a Vector) outcome" where
  "Erase T pos v =
     (let offset = pos - Vector_begin v in
      if Vector_end v = 0 then Undefined
      else
        (case (if pos \<noteq> Vector_end v - 1 then Erase_loop T (data_m v) offset (size_m v)
               else Done (offset, data_m v)) of
           Done (iter, m) \<Rightarrow>
             (case RawMemory_index m iter of
                None \<Rightarrow> AssertFail
              | Some i \<Rightarrow>
                 (case Destroy (buffer_m m) i of
                    None \<Rightarrow> Undefined
                  | Some buf \<Rightarrow> Done (Vector_begin v + offset, \<lparr>data_m = m\<lparr>buffer_m := buf\<rparr>, size_m = size_m v - 1\<rparr>)))
         | Throw e m \<Rightarrow> Throw e (v\<lparr>data_m := m\<rparr>)
         | AssertFail \<Rightarrow> AssertFail
         | Undefined \<Rightarrow> Undefined))"




section \<open>Operations on two vectors\<close>

text \<open>
  \<^verbatim>\<open>Swap\<close> exchanges the members of two vector objects. The assignments compare the
  addresses of their operands, so they work on a store of vector objects, \<open>this\<close> and
  \<open>rhs\<close> being addresses.
\<close>

definition Vector_Swap :: "'a Vector \<times> 'a Vector \<Rightarrow> 'a Vector \<times> 'a Vector" where
  "Vector_Swap p = (case p of (this, other) \<Rightarrow>
     (this\<lparr>size_m := size_m other, data_m := fst (RawMemory_Swap (data_m this, data_m other))\<rparr>,
      other\<lparr>size_m := size_m this, data_m := snd (RawMemory_Swap (data_m this, data_m other))\<rparr>))"

type_synonym 'a store = "nat \<Rightarrow> 'a Vector"

definition Swap :: "nat \<Rightarrow> nat \<Rightarrow> 'a store \<Rightarrow> 'a store" where
  "Swap this other \<sigma> = (case Vector_Swap (\<sigma> this, \<sigma> other) of (a, b) \<Rightarrow> \<sigma>(this := a, other := b))"

text \<open>The move constructor builds the new object at address \<open>this\<close>, empty, and swaps.\<close>

definition Vector_move :: "nat \<Rightarrow> nat \<Rightarrow> 'a store \<Rightarrow> 'a store" where
  "Vector_move this other \<sigma> = Swap this other (\<sigma>(this := \<lparr>data_m = RawMemory_default, size_m = 0\<rparr>))"

definition MoveAssign :: "nat \<Rightarrow> nat \<Rightarrow> 'a store \<Rightarrow> 'a store" where
  "MoveAssign this rhs \<sigma> = (if this \<noteq> rhs then Swap this rhs \<sigma> else \<sigma>)"


section \<open>What the claims speak of\<close>

text \<open>
  The invariant of the data model: the buffer has \<open>capacity_m\<close> slots, the size is at
  most the capacity, and the slots below the size hold live objects. The element
  sequence of a vector is what these slots hold.
\<close>

definition well_formed :: "'a Vector \<Rightarrow> bool" where
  "well_formed v =
     (length (buffer_m (data_m v)) = capacity_m (data_m v)
      \<and> size_m v \<le> capacity_m (data_m v)
      \<and> list_all (\<lambda>s. \<not> Option.is_none s) (take (size_m v) (buffer_m (data_m v))))"

definition contents :: "'a Vector \<Rightarrow> 'a option list" where
  "contents v = take (size_m v) (buffer_m (data_m v))"

text \<open>
  What \<^verbatim>\<open>UninitializedMoveOrCopy\<close> raises on an object of value \<open>x\<close>, and the vectors
  none of whose elements makes it raise.
\<close>

definition transfer_raises :: "('a, 'e) elem_type \<Rightarrow> 'a \<Rightarrow> 'e option" where
  "transfer_raises T x =
     (if nothrow_move_constructible T \<or> \<not> copy_constructible T then move_ctor_raises T x
      else copy_ctor_throws T x)"

definition quiet_slot :: "('a, 'e) elem_type \<Rightarrow> 'a option \<Rightarrow> bool" where
  "quiet_slot T s = (case s of None \<Rightarrow> True | Some x \<Rightarrow> Option.is_none (transfer_raises T x))"

definition transfers_quietly :: "('a, 'e) elem_type \<Rightarrow> 'a Vector \<Rightarrow> bool" where
  "transfers_quietly T v = list_all (quiet_slot T) (contents v)"

text \<open>
  The moves of the path of \<^verbatim>\<open>Emplace\<close> that does not reallocate: the move assignment of
  the new value \<open>x\<close>, and the move construction and move assignments of the elements
  from \<open>offset\<close> on. This says that none of them raises.
\<close>

definition quiet_move :: "('a, 'e) elem_type \<Rightarrow> 'a option \<Rightarrow> bool" where
  "quiet_move T s = (case s of None \<Rightarrow> True
     | Some y \<Rightarrow> Option.is_none (move_ctor_raises T y) \<and> Option.is_none (move_assign_throws T y))"

definition shifts_quietly :: "('a, 'e) elem_type \<Rightarrow> nat \<Rightarrow> 'a \<Rightarrow> 'a Vector \<Rightarrow> bool" where
  "shifts_quietly T offset x v =
     (Option.is_none (move_assign_throws T x) \<and> list_all (quiet_move T) (drop offset (contents v)))"

text \<open>
  Three element types: \<^verbatim>\<open>int\<close>; a type like \<^verbatim>\<open>std::string\<close>, whose move leaves the empty
  string behind; and a type whose copy constructor raises on the value 13 and whose move
  constructor is not \<^verbatim>\<open>noexcept\<close>, so that transfers copy.
\<close>

definition int_type :: "(int, string) elem_type" where
  "int_type = \<lparr>nothrow_move_constructible = True, copy_constructible = True,
     copy_ctor_throws = (\<lambda>x. None), move_ctor_throws = (\<lambda>x. None),
     copy_assign_throws = (\<lambda>x. None), move_assign_throws = (\<lambda>x. None),
     moved_from = (\<lambda>x. x), value_ctor = Inr 0\<rparr>"

definition string_type :: "(string, string) elem_type" where
  "string_type = \<lparr>nothrow_move_constructible = True, copy_constructible = True,
     copy_ctor_throws = (\<lambda>x. None), move_ctor_throws = (\<lambda>x. None),
     copy_assign_throws = (\<lambda>x. None), move_assign_throws = (\<lambda>x. None),
     moved_from = (\<lambda>x. []), value_ctor = Inr []\<rparr>"

definition picky_type :: "(int, string) elem_type" where
  "picky_type = \<lparr>nothrow_move_constructible = False, copy_constructible = True,
     copy_ctor_throws = (\<lambda>x. if x = 13 then Some ''thirteen'' else None), move_ctor_throws = (\<lambda>x. None),
     copy_assign_throws = (\<lambda>x. None), move_assign_throws = (\<lambda>x. None),
     moved_from = (\<lambda>x. x), value_ctor = Inr 0\<rparr>"

definition vector_of :: "'a option list \<Rightarrow> nat \<Rightarrow> 'a Vector" where
  "vector_of buf n = \<lparr>data_m = \<lparr>buffer_m = buf, capacity_m = length buf\<rparr>, size_m = n\<rparr>"

text \<open>
  A run of \<^verbatim>\<open>PushBack\<close> calls, one per constructor result of the list: the capacities seen,
  before the first call and after each call that returns; and the number of places where
  a list of capacities changes.
\<close>

fun capacity_trace :: "('a, 'e) elem_type \<Rightarrow> ('e + 'a) list \<Rightarrow> 'a Vector \<Rightarrow> nat list" where
  "capacity_trace T [] v = [Capacity v]"
| "capacity_trace T (c # cs) v =
     Capacity v # (case PushBack T c v of Done v' \<Rightarrow> capacity_trace T cs v' | _ \<Rightarrow> [])"

fun changes :: "nat list \<Rightarrow> nat" where
  "changes (a # b # xs) = (if a \<noteq> b then 1 else 0) + changes (b # xs)"
| "changes xs = 0"

text \<open>
  The capacity after \<open>k\<close> calls as the specification gives it, 0, 1, 2, 4, 4, 8, ...: 0
  before the first call, then the least power of two that is at least \<open>k\<close>.
\<close>

definition doubling_capacity :: "nat \<Rightarrow> nat" where
  "doubling_capacity k = (if k = 0 then 0 else 2 ^ ceillog2 k)"








text \<open>Two vector objects, \<open>[1]\<close> at address 0 and \<open>[2, 3]\<close> at address 1.\<close>

definition two_vectors :: "int store" where
  "two_vectors = (\<lambda>a. if a = 0 then vector_of [Some 1] 1 else vector_of [Some 2, Some 3] 2)"

section \<open>Lemmas on the algorithms\<close>

subsection \<open>Transfers and destructions that return\<close>

lemma well_formed_live: "well_formed v \<Longrightarrow> i < size_m v \<Longrightarrow> live (buffer_m (data_m v)) i"
  by (auto simp: well_formed_def live_def list_all_length Option.is_none_def)

lemma uninitialized_copy_n_Done:
  assumes "\<forall>i<n. live src (f + i)" and "d + n \<le> length dst"
    and "\<forall>i<n. copy_ctor_throws T (the (src ! (f + i))) = None"
  shows "\<exists>dst'. uninitialized_copy_n T src f n dst d = Done dst' \<and> length dst' = length dst \<and>
      (\<forall>j<length dst. dst' ! j = (if d \<le> j \<and> j < d + n then src ! (f + (j - d)) else dst ! j))"
  using assms
proof (induction n arbitrary: f d dst)
  case 0
  then show ?case by auto
next
  case (Suc n)
  have l: "live src f" and c: "copy_ctor_throws T (the (src ! f)) = None"
    using Suc.prems(1,3) by (metis add_0_right zero_less_Suc)+
  let ?dst1 = "dst[d := src ! f]"
  have p1: "\<forall>i<n. live src (Suc f + i)" using Suc.prems(1) by (metis add_Suc_shift Suc_less_eq)
  have p3: "\<forall>i<n. copy_ctor_throws T (the (src ! (Suc f + i))) = None"
    using Suc.prems(3) by (metis add_Suc_shift Suc_less_eq)
  have p2: "Suc d + n \<le> length ?dst1" using Suc.prems(2) by simp
  from Suc.IH [OF p1 p2 p3] obtain dst' where
    r: "uninitialized_copy_n T src (Suc f) n ?dst1 (Suc d) = Done dst'" and
    len: "length dst' = length ?dst1" and
    nth: "\<forall>j<length ?dst1. dst' ! j = (if Suc d \<le> j \<and> j < Suc d + n then src ! (Suc f + (j - Suc d)) else ?dst1 ! j)"
    by blast
  have d: "d < length dst" using Suc.prems(2) by simp
  have "uninitialized_copy_n T src f (Suc n) dst d = Done dst'"
    using l c d r by simp
  moreover have "length dst' = length dst" using len by simp
  moreover have "\<forall>j<length dst. dst' ! j = (if d \<le> j \<and> j < d + Suc n then src ! (f + (j - d)) else dst ! j)"
  proof (intro allI impI)
    fix j assume j: "j < length dst"
    show "dst' ! j = (if d \<le> j \<and> j < d + Suc n then src ! (f + (j - d)) else dst ! j)"
    proof (cases "j = d")
      case True
      then show ?thesis using nth j by simp
    next
      case False
      have "Suc d \<le> j \<Longrightarrow> Suc f + (j - Suc d) = f + (j - d)" by arith
      then show ?thesis using nth j False by auto
    qed
  qed
  ultimately show ?case by blast
qed

lemma uninitialized_move_n_Done:
  assumes "\<forall>i<n. live src (f + i)" and "d + n \<le> length dst"
    and "\<forall>i<n. move_ctor_raises T (the (src ! (f + i))) = None"
  shows "\<exists>src' dst'. uninitialized_move_n T src f n dst d = Done (src', dst') \<and> length dst' = length dst \<and>
      (\<forall>j<length dst. dst' ! j = (if d \<le> j \<and> j < d + n then src ! (f + (j - d)) else dst ! j)) \<and>
      length src' = length src \<and>
      (\<forall>j<length src. src' ! j = (if f \<le> j \<and> j < f + n then Some (moved_from T (the (src ! j))) else src ! j))"
  using assms
proof (induction n arbitrary: f d dst src)
  case 0
  then show ?case by auto
next
  case (Suc n)
  have l: "live src f" and c: "move_ctor_raises T (the (src ! f)) = None"
    using Suc.prems(1,3) by (metis add_0_right zero_less_Suc)+
  let ?dst1 = "dst[d := src ! f]"
  let ?src1 = "src[f := Some (moved_from T (the (src ! f)))]"
  have same: "\<And>i. ?src1 ! (Suc f + i) = src ! (Suc f + i)" by simp
  have p1: "\<forall>i<n. live ?src1 (Suc f + i)"
    using Suc.prems(1) unfolding live_def by (metis add_Suc_shift Suc_less_eq same length_list_update)
  have p3: "\<forall>i<n. move_ctor_raises T (the (?src1 ! (Suc f + i))) = None"
    using Suc.prems(3) by (metis add_Suc_shift Suc_less_eq same)
  have p2: "Suc d + n \<le> length ?dst1" using Suc.prems(2) by simp
  from Suc.IH [OF p1 p2 p3] obtain src' dst' where
    r: "uninitialized_move_n T ?src1 (Suc f) n ?dst1 (Suc d) = Done (src', dst')" and
    len: "length dst' = length ?dst1" and
    nth: "\<forall>j<length ?dst1. dst' ! j = (if Suc d \<le> j \<and> j < Suc d + n then ?src1 ! (Suc f + (j - Suc d)) else ?dst1 ! j)" and
    slen: "length src' = length ?src1" and
    snth: "\<forall>j<length ?src1. src' ! j = (if Suc f \<le> j \<and> j < Suc f + n then Some (moved_from T (the (?src1 ! j))) else ?src1 ! j)"
    by blast
  have d: "d < length dst" using Suc.prems(2) by simp
  have "uninitialized_move_n T src f (Suc n) dst d = Done (src', dst')"
    using l c d r by simp
  moreover have "length dst' = length dst" using len by simp
  moreover have "length src' = length src" using slen by simp
  moreover have "\<forall>j<length dst. dst' ! j = (if d \<le> j \<and> j < d + Suc n then src ! (f + (j - d)) else dst ! j)"
  proof (intro allI impI)
    fix j assume j: "j < length dst"
    show "dst' ! j = (if d \<le> j \<and> j < d + Suc n then src ! (f + (j - d)) else dst ! j)"
    proof (cases "j = d")
      case True
      then show ?thesis using nth j by simp
    next
      case False
      have "Suc d \<le> j \<Longrightarrow> Suc f + (j - Suc d) = f + (j - d)" by arith
      then show ?thesis using nth j False same by auto
    qed
  qed
  moreover have "\<forall>j<length src. src' ! j = (if f \<le> j \<and> j < f + Suc n then Some (moved_from T (the (src ! j))) else src ! j)"
  proof (intro allI impI)
    fix j assume j: "j < length src"
    show "src' ! j = (if f \<le> j \<and> j < f + Suc n then Some (moved_from T (the (src ! j))) else src ! j)"
    proof (cases "j = f")
      case True
      then show ?thesis using snth j by simp
    next
      case False
      then show ?thesis using snth j by auto
    qed
  qed
  ultimately show ?case by blast
qed

lemma transfers_quietly_nth:
  assumes "transfers_quietly T v" and "well_formed v" and "i < size_m v"
  shows "transfer_raises T (the (buffer_m (data_m v) ! i)) = None"
proof -
  have len: "i < length (contents v)"
    using assms(2,3) by (simp add: contents_def well_formed_def)
  then have "quiet_slot T (contents v ! i)"
    using assms(1) by (simp add: transfers_quietly_def list_all_length)
  moreover have "contents v ! i = buffer_m (data_m v) ! i"
    using assms(3) by (simp add: contents_def)
  moreover obtain x where "buffer_m (data_m v) ! i = Some x"
    using well_formed_live [OF assms(2,3)] by (auto simp: live_def)
  ultimately show ?thesis
    by (simp add: quiet_slot_def Option.is_none_def)
qed

lemma destroy_n_Some:
  assumes "\<forall>i<n. live buf (f + i)"
  shows "\<exists>buf'. destroy_n buf f n = Some buf' \<and> length buf' = length buf \<and>
      (\<forall>j<length buf. buf' ! j = (if f \<le> j \<and> j < f + n then None else buf ! j))"
  using assms
proof (induction n arbitrary: f buf)
  case 0
  then show ?case by auto
next
  case (Suc n)
  have l: "live buf f"
    using Suc.prems by (metis add_0_right zero_less_Suc)
  let ?buf1 = "buf[f := None]"
  have same: "\<And>i. ?buf1 ! (Suc f + i) = buf ! (Suc f + i)" by simp
  have p1: "\<forall>i<n. live ?buf1 (Suc f + i)"
    using Suc.prems unfolding live_def by (metis add_Suc_shift Suc_less_eq same length_list_update)
  from Suc.IH [OF p1] obtain buf' where
    r: "destroy_n ?buf1 (Suc f) n = Some buf'" and
    len: "length buf' = length ?buf1" and
    nth: "\<forall>j<length ?buf1. buf' ! j = (if Suc f \<le> j \<and> j < Suc f + n then None else ?buf1 ! j)"
    by blast
  have "destroy_n buf f (Suc n) = Some buf'" using l r by simp
  moreover have "length buf' = length buf" using len by simp
  moreover have "\<forall>j<length buf. buf' ! j = (if f \<le> j \<and> j < f + Suc n then None else buf ! j)"
  proof (intro allI impI)
    fix j assume j: "j < length buf"
    show "buf' ! j = (if f \<le> j \<and> j < f + Suc n then None else buf ! j)"
    proof (cases "j = f")
      case True
      then show ?thesis using nth j by simp
    next
      case False
      then show ?thesis using nth j by auto
    qed
  qed
  ultimately show ?case by blast
qed

lemma UninitializedMoveOrCopy_Done:
  assumes "\<forall>i<n. live src (f + i)" and "d + n \<le> length dst"
    and "\<forall>i<n. transfer_raises T (the (src ! (f + i))) = None"
  shows "\<exists>src' dst'. UninitializedMoveOrCopy T src f n dst d = Done (src', dst') \<and> length dst' = length dst \<and>
      (\<forall>j<length dst. dst' ! j = (if d \<le> j \<and> j < d + n then src ! (f + (j - d)) else dst ! j)) \<and>
      length src' = length src \<and> (\<forall>j. live src' j = live src j) \<and>
      (\<forall>j<length src. \<not> (f \<le> j \<and> j < f + n) \<longrightarrow> src' ! j = src ! j)"
proof (cases "nothrow_move_constructible T \<or> \<not> copy_constructible T")
  case True
  then have q: "\<forall>i<n. move_ctor_raises T (the (src ! (f + i))) = None"
    using assms(3) by (simp add: transfer_raises_def)
  from uninitialized_move_n_Done [OF assms(1,2) q] obtain src' dst' where
    r: "uninitialized_move_n T src f n dst d = Done (src', dst')" and
    len: "length dst' = length dst" and
    nth: "\<forall>j<length dst. dst' ! j = (if d \<le> j \<and> j < d + n then src ! (f + (j - d)) else dst ! j)" and
    slen: "length src' = length src" and
    snth: "\<forall>j<length src. src' ! j = (if f \<le> j \<and> j < f + n then Some (moved_from T (the (src ! j))) else src ! j)"
    by blast
  have lv: "\<forall>j. live src' j = live src j"
  proof
    fix j
    show "live src' j = live src j"
    proof (cases "f \<le> j \<and> j < f + n")
      case True
      then obtain i where "i < n" "j = f + i" by (metis le_Suc_ex nat_add_left_cancel_less)
      then have "live src j" using assms(1) by simp
      then show ?thesis using snth slen True by (simp add: live_def)
    next
      case False
      then show ?thesis using snth slen by (auto simp: live_def)
    qed
  qed
  have "UninitializedMoveOrCopy T src f n dst d = Done (src', dst')"
    using True r by (simp add: UninitializedMoveOrCopy_def)
  then show ?thesis using len nth slen snth lv by auto
next
  case False
  then have q: "\<forall>i<n. copy_ctor_throws T (the (src ! (f + i))) = None"
    using assms(3) by (simp add: transfer_raises_def)
  from uninitialized_copy_n_Done [OF assms(1,2) q] obtain dst' where
    r: "uninitialized_copy_n T src f n dst d = Done dst'" and
    len: "length dst' = length dst" and
    nth: "\<forall>j<length dst. dst' ! j = (if d \<le> j \<and> j < d + n then src ! (f + (j - d)) else dst ! j)"
    by blast
  have "UninitializedMoveOrCopy T src f n dst d = Done (src, dst')"
    using False r by (simp add: UninitializedMoveOrCopy_def)
  then show ?thesis using len nth by auto
qed

lemma transfer_and_swap_Done:
  assumes "\<forall>i<size_m v. live (buffer_m (data_m v)) i"
    and "size_m v \<le> length (buffer_m nd)"
    and "\<forall>i<size_m v. transfer_raises T (the (buffer_m (data_m v) ! i)) = None"
  shows "\<exists>v'. transfer_and_swap T v nd = Done v' \<and> size_m v' = size_m v \<and>
      capacity_m (data_m v') = capacity_m nd \<and> length (buffer_m (data_m v')) = length (buffer_m nd) \<and>
      (\<forall>j<length (buffer_m nd). buffer_m (data_m v') ! j =
          (if j < size_m v then buffer_m (data_m v) ! j else buffer_m nd ! j))"
proof -
  let ?src = "buffer_m (data_m v)" and ?dst = "buffer_m nd" and ?n = "size_m v"
  have a1: "\<forall>i<?n. live ?src (0 + i)" using assms(1) by simp
  have a2: "0 + ?n \<le> length ?dst" using assms(2) by simp
  have a3: "\<forall>i<?n. transfer_raises T (the (?src ! (0 + i))) = None" using assms(3) by simp
  from UninitializedMoveOrCopy_Done [OF a1 a2 a3] obtain src' dst' where
    r: "UninitializedMoveOrCopy T ?src 0 ?n ?dst 0 = Done (src', dst')" and
    len: "length dst' = length ?dst" and
    nth: "\<forall>j<length ?dst. dst' ! j = (if 0 \<le> j \<and> j < 0 + ?n then ?src ! (0 + (j - 0)) else ?dst ! j)" and
    lv: "\<forall>j. live src' j = live ?src j"
    by blast
  have "\<forall>i<?n. live src' (0 + i)" using lv assms(1) by simp
  from destroy_n_Some [OF this] obtain old' where
    d: "destroy_n src' 0 ?n = Some old'" by blast
  let ?v' = "v\<lparr>data_m := fst (RawMemory_Swap ((data_m v)\<lparr>buffer_m := old'\<rparr>, nd\<lparr>buffer_m := dst'\<rparr>))\<rparr>"
  have "transfer_and_swap T v nd = Done ?v'"
    using r d by (simp add: transfer_and_swap_def)
  moreover have "size_m ?v' = size_m v" by simp
  moreover have "capacity_m (data_m ?v') = capacity_m nd" by (simp add: RawMemory_Swap_def)
  moreover have b: "buffer_m (data_m ?v') = dst'" by (simp add: RawMemory_Swap_def)
  ultimately show ?thesis using len nth by (intro exI [of _ ?v']) simp
qed

subsection \<open>Reserve, PushBack and EmplaceBack\<close>


lemma well_formed_length: "well_formed v \<Longrightarrow> size_m v \<le> length (buffer_m (data_m v))"
  by (simp add: well_formed_def)

lemma well_formedI:
  assumes "length (buffer_m (data_m v)) = capacity_m (data_m v)" and "size_m v \<le> capacity_m (data_m v)"
    and "\<forall>i<size_m v. buffer_m (data_m v) ! i \<noteq> None"
  shows "well_formed v"
  using assms by (auto simp: well_formed_def list_all_length Option.is_none_def)

lemma contents_appendI:
  assumes "size_m v' = size_m v + 1" and "size_m v \<le> length (buffer_m (data_m v))"
    and "size_m v < length (buffer_m (data_m v'))"
    and "\<forall>i<size_m v. buffer_m (data_m v') ! i = buffer_m (data_m v) ! i"
    and "buffer_m (data_m v') ! size_m v = s"
  shows "contents v' = contents v @ [s]"
  unfolding contents_def using assms
  by (intro nth_equalityI) (auto simp: nth_append less_Suc_eq)

lemma construct_plus_Done:
  assumes "offset < capacity_m m" and "length (buffer_m m) = capacity_m m"
  shows "construct_plus m offset (Inr x) s = Done (m\<lparr>buffer_m := (buffer_m m)[offset := Some x]\<rparr>)"
  using assms by (simp add: construct_plus_def RawMemory_plus_def construct_at_def)

lemma construct_plus_Throw:
  assumes "offset \<le> capacity_m m"
  shows "construct_plus m offset (Inl e) s = Throw e s"
  using assms by (simp add: construct_plus_def RawMemory_plus_def)

text \<open>The growing path that \<^verbatim>\<open>PushBack\<close> and \<^verbatim>\<open>EmplaceBack\<close> share, when nothing raises.\<close>

lemma grow_path:
  fixes T :: "('a, 'e) elem_type"
  assumes wf: "well_formed v" and q: "transfers_quietly T v" and k: "size_m v < k"
  shows "\<exists>nd v'. construct_plus (RawMemory_sized k) (size_m v) (Inr x :: 'e + 'a) s = Done nd \<and>
      transfer_and_swap T v nd = Done v' \<and> size_m v' = size_m v \<and> capacity_m (data_m v') = k \<and>
      length (buffer_m (data_m v')) = k \<and>
      (\<forall>j<size_m v. buffer_m (data_m v') ! j = buffer_m (data_m v) ! j) \<and>
      buffer_m (data_m v') ! size_m v = Some x"
proof -
  let ?m = "RawMemory_sized k :: 'a RawMemory"
  let ?nd = "?m\<lparr>buffer_m := (buffer_m ?m)[size_m v := Some x]\<rparr>"
  have c: "construct_plus ?m (size_m v) (Inr x :: 'e + 'a) s = Done ?nd"
    using k by (intro construct_plus_Done) (simp_all add: RawMemory_sized_def Allocate_def)
  have a1: "\<forall>i<size_m v. live (buffer_m (data_m v)) i" using wf by (simp add: well_formed_live)
  have a2: "size_m v \<le> length (buffer_m ?nd)"
    using k by (simp add: RawMemory_sized_def Allocate_def)
  have a3: "\<forall>i<size_m v. transfer_raises T (the (buffer_m (data_m v) ! i)) = None"
    using transfers_quietly_nth [OF q wf] by simp
  from transfer_and_swap_Done [OF a1 a2 a3] obtain v' where
    r: "transfer_and_swap T v ?nd = Done v'" and sz: "size_m v' = size_m v" and
    cap: "capacity_m (data_m v') = capacity_m ?nd" and
    len: "length (buffer_m (data_m v')) = length (buffer_m ?nd)" and
    nth: "\<forall>j<length (buffer_m ?nd). buffer_m (data_m v') ! j =
          (if j < size_m v then buffer_m (data_m v) ! j else buffer_m ?nd ! j)"
    by blast
  have l: "length (buffer_m ?nd) = k" by (simp add: RawMemory_sized_def Allocate_def)
  have "capacity_m (data_m v') = k" using cap by (simp add: RawMemory_sized_def)
  moreover have "length (buffer_m (data_m v')) = k" using len l by simp
  moreover have "\<forall>j<size_m v. buffer_m (data_m v') ! j = buffer_m (data_m v) ! j"
    using nth l k by simp
  moreover have "buffer_m (data_m v') ! size_m v = Some x"
    using nth l k by (simp add: RawMemory_sized_def Allocate_def)
  ultimately show ?thesis using c r sz by blast
qed

lemma buffer_after_push:
  assumes wf: "well_formed v" and sz: "size_m v' = size_m v + 1"
    and cap: "size_m v < capacity_m (data_m v')" and len: "length (buffer_m (data_m v')) = capacity_m (data_m v')"
    and old: "\<forall>j<size_m v. buffer_m (data_m v') ! j = buffer_m (data_m v) ! j"
    and new: "buffer_m (data_m v') ! size_m v = Some x"
  shows "well_formed v' \<and> contents v' = contents v @ [Some x]"
proof
  have "\<forall>i<size_m v'. buffer_m (data_m v') ! i \<noteq> None"
  proof (intro allI impI)
    fix i assume "i < size_m v'"
    then have "i < size_m v \<or> i = size_m v" using sz by auto
    then show "buffer_m (data_m v') ! i \<noteq> None"
      using old new well_formed_live [OF wf] by (auto simp: live_def)
  qed
  then show "well_formed v'" using len cap sz by (intro well_formedI) simp_all
  show "contents v' = contents v @ [Some x]"
    using sz well_formed_length [OF wf] cap len old new by (intro contents_appendI) simp_all
qed

lemma PushBack_Done:
  fixes T :: "('a, 'e) elem_type"
  assumes wf: "well_formed v" and q: "transfers_quietly T v"
  shows "\<exists>v'. PushBack T (Inr x) v = Done v' \<and> size_m v' = size_m v + 1 \<and>
      Capacity v' = (if size_m v = Capacity v then (if size_m v = 0 then 1 else size_m v * 2) else Capacity v) \<and>
      buffer_m (data_m v') ! size_m v = Some x \<and>
      (\<forall>j<size_m v. buffer_m (data_m v') ! j = buffer_m (data_m v) ! j) \<and>
      well_formed v' \<and> contents v' = contents v @ [Some x]"
proof (cases "size_m v = Capacity v")
  case True
  define k where "k = (if size_m v = 0 then 1 else size_m v * 2)"
  have k: "size_m v < k" by (simp add: k_def)
  from grow_path [OF wf q k, of x v] obtain nd v1 where
    c: "construct_plus (RawMemory_sized k) (size_m v) (Inr x :: 'e + 'a) v = Done nd" and
    t: "transfer_and_swap T v nd = Done v1" and sz: "size_m v1 = size_m v" and
    cap: "capacity_m (data_m v1) = k" and len: "length (buffer_m (data_m v1)) = k" and
    old: "\<forall>j<size_m v. buffer_m (data_m v1) ! j = buffer_m (data_m v) ! j" and
    new: "buffer_m (data_m v1) ! size_m v = Some x"
    by blast
  let ?v' = "v1\<lparr>size_m := size_m v1 + 1\<rparr>"
  have r: "PushBack T (Inr x) v = Done ?v'"
    unfolding PushBack_def k_def [symmetric] using True c t by simp
  have "well_formed ?v' \<and> contents ?v' = contents v @ [Some x]"
    using sz cap len old new k by (intro buffer_after_push [OF wf]) simp_all
  then show ?thesis
    using r sz cap old new True by (intro exI [of _ ?v']) (simp add: Capacity_def k_def)
next
  case False
  then have lt: "size_m v < capacity_m (data_m v)"
    using wf by (simp add: well_formed_def Capacity_def)
  have len: "length (buffer_m (data_m v)) = capacity_m (data_m v)"
    using wf by (simp add: well_formed_def)
  let ?m = "(data_m v)\<lparr>buffer_m := (buffer_m (data_m v))[size_m v := Some x]\<rparr>"
  let ?v' = "v\<lparr>data_m := ?m, size_m := size_m v + 1\<rparr>"
  have c: "construct_plus (data_m v) (size_m v) (Inr x :: 'e + 'a) v = Done ?m"
    using lt len by (rule construct_plus_Done)
  have r: "PushBack T (Inr x) v = Done ?v'"
    using False c by (simp add: PushBack_def)
  have "well_formed ?v' \<and> contents ?v' = contents v @ [Some x]"
    using lt len by (intro buffer_after_push [OF wf]) simp_all
  then show ?thesis
    using r False lt len by (intro exI [of _ ?v']) (simp add: Capacity_def)
qed

lemma EmplaceBack_Done:
  fixes T :: "('a, 'e) elem_type"
  assumes wf: "well_formed v" and room_or_quiet: "size_m v < Capacity v \<or> transfers_quietly T v"
  shows "\<exists>v'. EmplaceBack T (Inr x) v = Done (size_m v, v') \<and> size_m v' = size_m v + 1 \<and>
      Capacity v' = (if size_m v < Capacity v then Capacity v else (if size_m v = 0 then 1 else size_m v * 2)) \<and>
      buffer_m (data_m v') ! size_m v = Some x \<and>
      (\<forall>j<size_m v. buffer_m (data_m v') ! j = buffer_m (data_m v) ! j) \<and>
      well_formed v' \<and> contents v' = contents v @ [Some x]"
proof (cases "size_m v < Capacity v")
  case False
  then have q: "transfers_quietly T v" using room_or_quiet by simp
  define k where "k = (if size_m v = 0 then 1 else size_m v * 2)"
  have k: "size_m v < k" by (simp add: k_def)
  from grow_path [OF wf q k, of x v] obtain nd v1 where
    c: "construct_plus (RawMemory_sized k) (size_m v) (Inr x :: 'e + 'a) v = Done nd" and
    t: "transfer_and_swap T v nd = Done v1" and sz: "size_m v1 = size_m v" and
    cap: "capacity_m (data_m v1) = k" and len: "length (buffer_m (data_m v1)) = k" and
    old: "\<forall>j<size_m v. buffer_m (data_m v1) ! j = buffer_m (data_m v) ! j" and
    new: "buffer_m (data_m v1) ! size_m v = Some x"
    by blast
  let ?v' = "v1\<lparr>size_m := size_m v1 + 1\<rparr>"
  have r: "EmplaceBack T (Inr x) v = Done (size_m v, ?v')"
    unfolding EmplaceBack_def k_def [symmetric] using False c t sz by simp
  have "well_formed ?v' \<and> contents ?v' = contents v @ [Some x]"
    using sz cap len old new k by (intro buffer_after_push [OF wf]) simp_all
  then show ?thesis
    using r sz cap old new False by (intro exI [of _ ?v']) (simp add: Capacity_def k_def)
next
  case True
  then have lt: "size_m v < capacity_m (data_m v)"
    by (simp add: Capacity_def)
  have len: "length (buffer_m (data_m v)) = capacity_m (data_m v)"
    using wf by (simp add: well_formed_def)
  let ?m = "(data_m v)\<lparr>buffer_m := (buffer_m (data_m v))[size_m v := Some x]\<rparr>"
  let ?v' = "v\<lparr>data_m := ?m, size_m := size_m v + 1\<rparr>"
  have c: "construct_plus (data_m v) (size_m v) (Inr x :: 'e + 'a) v = Done ?m"
    using lt len by (rule construct_plus_Done)
  have r: "EmplaceBack T (Inr x) v = Done (size_m v, ?v')"
    using True c by (simp add: EmplaceBack_def)
  have "well_formed ?v' \<and> contents ?v' = contents v @ [Some x]"
    using lt len by (intro buffer_after_push [OF wf]) simp_all
  then show ?thesis
    using r True lt len by (intro exI [of _ ?v']) (simp add: Capacity_def)
qed

subsection \<open>The destructor and Swap\<close>

lemma DestroyN_destroy_n: "DestroyN buf f n = destroy_n buf f n"
  by (induction n arbitrary: buf f) (simp_all add: Destroy_def)

lemma well_formed_dtor: "well_formed v \<Longrightarrow> Vector_dtor v"
proof -
  assume wf: "well_formed v"
  then have "\<forall>i<size_m v. live (buffer_m (data_m v)) (0 + i)" by (simp add: well_formed_live)
  from destroy_n_Some [OF this] show ?thesis
    by (auto simp: Vector_dtor_def DestroyN_destroy_n)
qed

lemma Swap_distinct:
  assumes "this \<noteq> other"
  shows "Swap this other \<sigma> this = \<sigma> other" and "Swap this other \<sigma> other = \<sigma> this"
    and "a \<noteq> this \<Longrightarrow> a \<noteq> other \<Longrightarrow> Swap this other \<sigma> a = \<sigma> a"
  using assms by (simp_all add: Swap_def Vector_Swap_def RawMemory_Swap_def)


subsection \<open>The capacities of a run of PushBack calls\<close>

lemma ceillog2_Suc_cases:
  assumes "0 < m"
  shows "ceillog2 (Suc m) = (if m = 2 ^ ceillog2 m then Suc (ceillog2 m) else ceillog2 m)"
proof -
  have up: "m \<le> 2 ^ ceillog2 m" by (rule le_two_power_ceillog2)
  have lo: "2 ^ ceillog2 m < 2 * m" using assms by (rule two_power_ceillog2_gt)
  show ?thesis
  proof (cases "m = 2 ^ ceillog2 m")
    case True
    have "ceillog2 (Suc m) = Suc (ceillog2 m)"
    proof (rule ceillog2_eqI)
      show "Suc m \<le> 2 ^ Suc (ceillog2 m)" using True assms by simp
      show "2 ^ Suc (ceillog2 m) < 2 * Suc m" using True by simp
    qed
    then show ?thesis using True by simp
  next
    case False
    then have lt: "m < 2 ^ ceillog2 m" using up by simp
    have "ceillog2 (Suc m) = ceillog2 m"
    proof (rule ceillog2_eqI)
      show "Suc m \<le> 2 ^ ceillog2 m" using lt by simp
      show "2 ^ ceillog2 m < 2 * Suc m" using lo by simp
    qed
    then show ?thesis using False by simp
  qed
qed

lemma doubling_capacity_Suc:
  "doubling_capacity (Suc m) =
     (if m = doubling_capacity m then (if m = 0 then 1 else m * 2) else doubling_capacity m)"
proof (cases "m = 0")
  case True
  then show ?thesis by (simp add: doubling_capacity_def)
next
  case False
  then show ?thesis by (simp add: doubling_capacity_def ceillog2_Suc_cases)
qed

lemma transfers_quietly_append:
  assumes "transfers_quietly T v" and "contents v' = contents v @ [Some x]" and "transfer_raises T x = None"
  shows "transfers_quietly T v'"
  using assms by (simp add: transfers_quietly_def quiet_slot_def Option.is_none_def)

lemma capacity_trace_doubling:
  fixes T :: "('a, 'e) elem_type"
  assumes "well_formed v" and "transfers_quietly T v" and "\<forall>x\<in>set xs. transfer_raises T x = None"
    and "Capacity v = doubling_capacity (size_m v)"
  shows "capacity_trace T (map Inr xs) v = map doubling_capacity [size_m v ..< size_m v + length xs + 1]"
  using assms
proof (induction xs arbitrary: v)
  case Nil
  then show ?case by simp
next
  case (Cons x xs)
  from PushBack_Done [OF Cons.prems(1,2), of x] obtain v' where
    r: "PushBack T (Inr x) v = Done v'" and sz: "size_m v' = size_m v + 1" and
    cap: "Capacity v' = (if size_m v = Capacity v then (if size_m v = 0 then 1 else size_m v * 2) else Capacity v)" and
    wf': "well_formed v'" and c: "contents v' = contents v @ [Some x]"
    by blast
  have q': "transfers_quietly T v'"
    using Cons.prems(2) c Cons.prems(3) by (intro transfers_quietly_append [of T v v' x]) simp_all
  have cap': "Capacity v' = doubling_capacity (size_m v')"
    using cap sz Cons.prems(4) by (simp add: doubling_capacity_Suc)
  have rest: "capacity_trace T (map Inr xs) v' = map doubling_capacity [size_m v' ..< size_m v' + length xs + 1]"
    using wf' q' Cons.prems(3) cap' by (intro Cons.IH) simp_all
  have "size_m v < size_m v' + length xs + 1" using sz by simp
  then have "[size_m v ..< size_m v' + length xs + 1] = size_m v # [Suc (size_m v) ..< size_m v' + length xs + 1]"
    by (rule upt_conv_Cons)
  moreover have "Suc (size_m v) = size_m v'" using sz by simp
  moreover have "size_m v + length (x # xs) + 1 = size_m v' + length xs + 1" using sz by simp
  ultimately have u: "[size_m v ..< size_m v + length (x # xs) + 1] = size_m v # [size_m v' ..< size_m v' + length xs + 1]"
    by (simp only:)
  have "capacity_trace T (map Inr (x # xs)) v = Capacity v # capacity_trace T (map Inr xs) v'"
    using r by simp
  also have "\<dots> = map doubling_capacity (size_m v # [size_m v' ..< size_m v' + length xs + 1])"
    using rest Cons.prems(4) by (simp only: list.map)
  finally show ?case by (simp only: u)
qed

lemma changes_snoc: "changes (xs @ [a, b]) = changes (xs @ [a]) + (if a \<noteq> b then 1 else 0)"
  by (induction xs rule: changes.induct) auto

lemma changes_doubling:
  "changes (map doubling_capacity [0 ..< n + 1]) = (if n = 0 then 0 else ceillog2 n + 1)"
proof (induction n)
  case 0
  then show ?case by simp
next
  case (Suc n)
  show ?case
  proof (cases "n = 0")
    case True
    then show ?thesis by (simp add: doubling_capacity_def upt_rec [of 0])
  next
    case False
    then have pos: "0 < n" by simp
    have "map doubling_capacity [0 ..< Suc n + 1]
        = map doubling_capacity [0 ..< n] @ [doubling_capacity n, doubling_capacity (Suc n)]"
      by simp
    then have "changes (map doubling_capacity [0 ..< Suc n + 1])
        = changes (map doubling_capacity [0 ..< n] @ [doubling_capacity n])
          + (if doubling_capacity n \<noteq> doubling_capacity (Suc n) then 1 else 0)"
      by (simp only: changes_snoc)
    also have "map doubling_capacity [0 ..< n] @ [doubling_capacity n] = map doubling_capacity [0 ..< n + 1]"
      by simp
    also have "changes (map doubling_capacity [0 ..< n + 1]) = ceillog2 n + 1"
      using Suc.IH False by simp
    also have "(if doubling_capacity n \<noteq> doubling_capacity (Suc n) then 1 else 0)
        = (if n = 2 ^ ceillog2 n then 1 else (0::nat))"
      using pos by (simp add: doubling_capacity_def ceillog2_Suc_cases)
    finally show ?thesis
      using pos by (simp add: ceillog2_Suc_cases)
  qed
qed

subsection \<open>Size and capacity after each operation\<close>
























subsection \<open>Emplace\<close>

text \<open>
  The defect of \<^verbatim>\<open>EmplaceWithoutRealoc\<close> in general: whatever the vector and the element
  type, \<^verbatim>\<open>Emplace\<close> at \<^verbatim>\<open>end()\<close> of a vector that is not full does not return.
\<close>

lemma Emplace_at_end_in_place_never_returns:
  assumes "size_m v \<noteq> Capacity v"
  shows "Emplace T (Vector_end v) (Inr x) v \<noteq> Done r"
proof -
  have mb: "move_backward T buf (size_m v) (size_m v - 1) (size_m v) = Undefined" if "size_m v \<noteq> 0" for buf
    using that by (simp add: move_backward_def)
  have "EmplaceWithoutRealoc T (size_m v) (Inr x) v \<noteq> Done v'" for v'
    using mb by (auto simp: EmplaceWithoutRealoc_def Vector_end_def Vector_begin_def split: outcome.splits)
  then show ?thesis
    using assms by (auto simp: Emplace_def Let_def Vector_end_def Vector_begin_def split: outcome.splits)
qed

lemma move_backward_n_Done:
  assumes "k \<le> l" and "l < length buf"
    and "\<forall>i. l - k \<le> i \<and> i \<le> l \<longrightarrow> live buf i"
    and "\<forall>i. l - k \<le> i \<and> i < l \<longrightarrow> move_assign_throws T (the (buf ! i)) = None"
  shows "\<exists>buf'. move_backward_n T buf k l (l + 1) = Done buf' \<and> length buf' = length buf \<and>
      (\<forall>j<length buf. buf' ! j =
         (if l - k < j \<and> j \<le> l then buf ! (j - 1)
          else if j = l - k \<and> 0 < k then Some (moved_from T (the (buf ! j)))
          else buf ! j))"
  using assms
proof (induction k arbitrary: l buf)
  case 0
  then show ?case by auto
next
  case (Suc k)
  have lpos: "0 < l" using Suc.prems(1) by simp
  have ls: "live buf (l - 1)" and ld: "live buf l"
    using Suc.prems(1,3) by auto
  have nt: "move_assign_throws T (the (buf ! (l - 1))) = None"
    using Suc.prems(1,4) lpos by auto
  let ?buf1 = "buf[l - 1 := Some (moved_from T (the (buf ! (l - 1)))), l := buf ! (l - 1)]"
  have ma: "move_assign T buf l (l - 1) = Done ?buf1"
    using ls ld nt by (simp add: move_assign_def)
  have p1: "k \<le> l - 1" using Suc.prems(1) by simp
  have p2: "l - 1 < length ?buf1" using Suc.prems(2) by simp
  have p3: "\<forall>i. l - 1 - k \<le> i \<and> i \<le> l - 1 \<longrightarrow> live ?buf1 i"
  proof (intro allI impI)
    fix i assume i: "l - 1 - k \<le> i \<and> i \<le> l - 1"
    then have "live buf i" using Suc.prems(1,3) by auto
    then show "live ?buf1 i" using i lpos by (cases "i = l - 1") (auto simp: live_def)
  qed
  have p4: "\<forall>i. l - 1 - k \<le> i \<and> i < l - 1 \<longrightarrow> move_assign_throws T (the (?buf1 ! i)) = None"
  proof (intro allI impI)
    fix i assume i: "l - 1 - k \<le> i \<and> i < l - 1"
    then have "move_assign_throws T (the (buf ! i)) = None" using Suc.prems(1,4) by auto
    moreover have "i \<noteq> l - 1" and "i \<noteq> l" using i by auto
    ultimately show "move_assign_throws T (the (?buf1 ! i)) = None" by simp
  qed
  from Suc.IH [OF p1 p2 p3 p4] obtain buf' where
    r: "move_backward_n T ?buf1 k (l - 1) (l - 1 + 1) = Done buf'" and
    len: "length buf' = length ?buf1" and
    nth: "\<forall>j<length ?buf1. buf' ! j =
         (if l - 1 - k < j \<and> j \<le> l - 1 then ?buf1 ! (j - 1)
          else if j = l - 1 - k \<and> 0 < k then Some (moved_from T (the (?buf1 ! j)))
          else ?buf1 ! j)"
    by blast
  have r': "move_backward_n T ?buf1 k (l - 1) l = Done buf'" using r lpos by simp
  have "move_backward_n T buf (Suc k) l (l + 1) = Done buf'"
    using lpos ma r' by simp
  moreover have "length buf' = length buf" using len by simp
  moreover have "\<forall>j<length buf. buf' ! j =
         (if l - Suc k < j \<and> j \<le> l then buf ! (j - 1)
          else if j = l - Suc k \<and> 0 < Suc k then Some (moved_from T (the (buf ! j)))
          else buf ! j)"
  proof (intro allI impI)
    fix j assume j: "j < length buf"
    define b1 where "b1 = ?buf1"
    have at_l: "b1 ! l = buf ! (l - 1)"
      using Suc.prems(2) by (simp add: b1_def)
    have at_l1: "b1 ! (l - 1) = Some (moved_from T (the (buf ! (l - 1))))"
      using Suc.prems(2) lpos by (simp add: b1_def)
    have other: "b1 ! i = buf ! i" if "i \<noteq> l" and "i \<noteq> l - 1" for i
      using that by (simp add: b1_def)
    have e: "buf' ! j =
         (if l - 1 - k < j \<and> j \<le> l - 1 then b1 ! (j - 1)
          else if j = l - 1 - k \<and> 0 < k then Some (moved_from T (the (b1 ! j)))
          else b1 ! j)"
      using nth j by (simp add: b1_def)
    consider "j = l" | "j = l - 1" "k = 0" | "j = l - 1" "0 < k" | "j < l - 1" | "l < j" by linarith
    then show "buf' ! j =
         (if l - Suc k < j \<and> j \<le> l then buf ! (j - 1)
          else if j = l - Suc k \<and> 0 < Suc k then Some (moved_from T (the (buf ! j)))
          else buf ! j)"
    proof cases
      case 1
      have c1: "(l - 1 - k < j \<and> j \<le> l - 1) = False" using 1 lpos by auto
      have c2: "(j = l - 1 - k \<and> 0 < k) = False" using 1 lpos by auto
      have g1: "(l - Suc k < j \<and> j \<le> l) = True" using 1 lpos by auto
      show ?thesis unfolding e c1 c2 g1 using 1 at_l by simp
    next
      case 2
      have c1: "(l - 1 - k < j \<and> j \<le> l - 1) = False" using 2 by auto
      have c2: "(j = l - 1 - k \<and> 0 < k) = False" using 2 by auto
      have g1: "(l - Suc k < j \<and> j \<le> l) = False" using 2 by auto
      have g2: "(j = l - Suc k \<and> 0 < Suc k) = True" using 2 by auto
      show ?thesis unfolding e c1 c2 g1 g2 using 2 at_l1 by simp
    next
      case 3
      then have l2: "2 \<le> l" using Suc.prems(1) by simp
      have c1: "(l - 1 - k < j \<and> j \<le> l - 1) = True" using 3 l2 by auto
      have g1: "(l - Suc k < j \<and> j \<le> l) = True" using 3 l2 by auto
      have o: "b1 ! (j - 1) = buf ! (j - 1)" using 3 l2 by (intro other) auto
      show ?thesis unfolding e c1 g1 o by simp
    next
      case 4
      have o1: "b1 ! j = buf ! j" using 4 by (intro other) simp_all
      have o2: "b1 ! (j - 1) = buf ! (j - 1)" using 4 by (intro other) simp_all
      have c1: "(l - 1 - k < j \<and> j \<le> l - 1) = (l - Suc k < j \<and> j \<le> l)" using 4 by auto
      have c2: "(j = l - 1 - k \<and> 0 < k) = (j = l - Suc k \<and> 0 < Suc k)" using 4 Suc.prems(1) by auto
      show ?thesis unfolding e c1 c2 o1 o2 by simp
    next
      case 5
      have c1: "(l - 1 - k < j \<and> j \<le> l - 1) = False" using 5 by auto
      have c2: "(j = l - 1 - k \<and> 0 < k) = False" using 5 by auto
      have g1: "(l - Suc k < j \<and> j \<le> l) = False" using 5 by auto
      have g2: "(j = l - Suc k \<and> 0 < Suc k) = False" using 5 by auto
      have o: "b1 ! j = buf ! j" using 5 by (intro other) simp_all
      show ?thesis unfolding e c1 c2 g1 g2 o by simp
    qed
  qed
  ultimately show ?case by blast
qed

lemma EmplaceWithoutRealoc_Done:
  assumes wf: "well_formed v" and lt: "size_m v < capacity_m (data_m v)" and off: "offset < size_m v"
    and mc: "move_ctor_raises T (the (buffer_m (data_m v) ! (size_m v - 1))) = None"
    and ma: "\<forall>i. offset \<le> i \<and> i < size_m v - 1 \<longrightarrow> move_assign_throws T (the (buffer_m (data_m v) ! i)) = None"
    and mx: "move_assign_throws T x = None"
  shows "\<exists>v'. EmplaceWithoutRealoc T offset (Inr x) v = Done v' \<and> size_m v' = size_m v \<and>
      capacity_m (data_m v') = capacity_m (data_m v) \<and>
      length (buffer_m (data_m v')) = length (buffer_m (data_m v)) \<and>
      (\<forall>j<length (buffer_m (data_m v)). buffer_m (data_m v') ! j =
         (if j < offset then buffer_m (data_m v) ! j
          else if j = offset then Some x
          else if j \<le> size_m v then buffer_m (data_m v) ! (j - 1)
          else buffer_m (data_m v) ! j))"
proof -
  define n where "n = size_m v"
  define buf where "buf = buffer_m (data_m v)"
  have npos: "0 < n" and offn: "offset < n" using off by (simp_all add: n_def)
  have len: "n < length buf" using wf lt by (simp add: well_formed_def n_def buf_def)
  have lv: "live buf i" if "i < n" for i
    using well_formed_live [OF wf, of i] that by (simp add: n_def buf_def)
  define b1 where "b1 = buf[n - 1 := Some (moved_from T (the (buf ! (n - 1)))), n := buf ! (n - 1)]"
  have s1: "move_construct_in T buf n (n - 1) = Done b1"
    using lv [of "n - 1"] npos len mc by (simp add: move_construct_in_def b1_def n_def buf_def)
  have len1: "length b1 = length buf" by (simp add: b1_def)
  have at_n: "b1 ! n = buf ! (n - 1)" using len by (simp add: b1_def)
  have at_n1: "b1 ! (n - 1) = Some (moved_from T (the (buf ! (n - 1))))" using len npos by (simp add: b1_def)
  have other: "b1 ! i = buf ! i" if "i \<noteq> n" and "i \<noteq> n - 1" for i
    using that by (simp add: b1_def)
  have lv1: "live b1 i" if "i < n" for i
  proof (cases "i = n - 1")
    case True
    then show ?thesis using at_n1 len len1 npos by (simp add: live_def)
  next
    case False
    then have "b1 ! i = buf ! i" using that by (intro other) auto
    then show ?thesis using lv [OF that] len1 by (simp add: live_def)
  qed
  define k where "k = n - 1 - offset"
  have kl: "k \<le> n - 1" by (simp add: k_def)
  have lk: "n - 1 - k = offset" using offn by (simp add: k_def)
  have q1: "n - 1 < length b1" using len len1 by simp
  have q2: "\<forall>i. n - 1 - k \<le> i \<and> i \<le> n - 1 \<longrightarrow> live b1 i"
    using lv1 npos by auto
  have q3: "\<forall>i. n - 1 - k \<le> i \<and> i < n - 1 \<longrightarrow> move_assign_throws T (the (b1 ! i)) = None"
  proof (intro allI impI)
    fix i assume i: "n - 1 - k \<le> i \<and> i < n - 1"
    then have "b1 ! i = buf ! i" by (intro other) auto
    moreover have "move_assign_throws T (the (buf ! i)) = None"
      using ma i lk by (simp add: n_def buf_def)
    ultimately show "move_assign_throws T (the (b1 ! i)) = None" by simp
  qed
  from move_backward_n_Done [OF kl q1 q2 q3] obtain b2 where
    r2: "move_backward_n T b1 k (n - 1) (n - 1 + 1) = Done b2" and len2: "length b2 = length b1" and
    nth2: "\<forall>j<length b1. b2 ! j =
         (if n - 1 - k < j \<and> j \<le> n - 1 then b1 ! (j - 1)
          else if j = n - 1 - k \<and> 0 < k then Some (moved_from T (the (b1 ! j)))
          else b1 ! j)"
    by blast
  have s2: "move_backward T b1 offset (n - 1) n = Done b2"
    using r2 offn npos by (simp add: move_backward_def k_def)
  have at2: "b2 ! j =
         (if offset < j \<and> j \<le> n - 1 then b1 ! (j - 1)
          else if j = offset \<and> 0 < k then Some (moved_from T (the (b1 ! j)))
          else b1 ! j)" if "j < length buf" for j
    using nth2 that len1 lk by simp
  have "b2 ! offset \<noteq> None"
  proof (cases "0 < k")
    case True
    then show ?thesis using at2 [of offset] offn len by simp
  next
    case False
    then have "offset = n - 1" using offn by (simp add: k_def)
    then show ?thesis using at2 [of offset] at_n1 len by simp
  qed
  then have lv2: "live b2 offset" using offn len len1 len2 by (simp add: live_def)
  define b3 where "b3 = b2[offset := Some x]"
  have s3: "move_assign_value T b2 offset x = Done b3"
    using lv2 mx by (simp add: move_assign_value_def b3_def)
  let ?v' = "set_buffer v b3"
  have r: "EmplaceWithoutRealoc T offset (Inr x) v = Done ?v'"
    using s1 s2 s3 npos
    by (simp add: EmplaceWithoutRealoc_def Vector_end_def Vector_begin_def n_def [symmetric] buf_def [symmetric])
  have len3: "length b3 = length buf" using len1 len2 by (simp add: b3_def)
  have nth3: "b3 ! j =
         (if j < offset then buf ! j
          else if j = offset then Some x
          else if j \<le> n then buf ! (j - 1)
          else buf ! j)" if j: "j < length buf" for j
  proof -
    note e2 = at2 [OF j]
    consider "j < offset" | "j = offset" | "offset < j" "j \<le> n - 1" | "j = n" | "n < j" by linarith
    then show ?thesis
    proof cases
      case 1
      have c1: "(offset < j \<and> j \<le> n - 1) = False" and c2: "(j = offset \<and> 0 < k) = False"
        and c3: "j \<noteq> offset" using 1 by auto
      have "b3 ! j = b2 ! j" using c3 by (simp add: b3_def)
      also have "b2 ! j = b1 ! j" unfolding e2 c1 c2 by simp
      also have "b1 ! j = buf ! j" using 1 offn by (intro other) auto
      finally show ?thesis using 1 by simp
    next
      case 2
      then show ?thesis using j len1 len2 by (simp add: b3_def)
    next
      case 3
      have c1: "(offset < j \<and> j \<le> n - 1) = True" and c3: "j \<noteq> offset"
        and g: "(j < offset) = False" "(j \<le> n) = True" using 3 by auto
      have "b3 ! j = b2 ! j" using c3 by (simp add: b3_def)
      also have "b2 ! j = b1 ! (j - 1)" unfolding e2 c1 by simp
      also have "b1 ! (j - 1) = buf ! (j - 1)" using 3 by (intro other) auto
      finally have f: "b3 ! j = buf ! (j - 1)" .
      show ?thesis unfolding f g using c3 by simp
    next
      case 4
      have c1: "(offset < j \<and> j \<le> n - 1) = False" and c2: "(j = offset \<and> 0 < k) = False"
        and c3: "j \<noteq> offset" and g: "(j < offset) = False" "(j \<le> n) = True"
        using 4 offn npos by auto
      have "b3 ! j = b2 ! j" using c3 by (simp add: b3_def)
      also have "b2 ! j = b1 ! j" unfolding e2 c1 c2 by simp
      also have "b1 ! j = buf ! (j - 1)" using at_n 4 by simp
      finally have f: "b3 ! j = buf ! (j - 1)" .
      show ?thesis unfolding f g using c3 by simp
    next
      case 5
      have c1: "(offset < j \<and> j \<le> n - 1) = False" and c2: "(j = offset \<and> 0 < k) = False"
        and c3: "j \<noteq> offset" and g: "(j < offset) = False" "(j \<le> n) = False"
        using 5 offn npos by auto
      have "b3 ! j = b2 ! j" using c3 by (simp add: b3_def)
      also have "b2 ! j = b1 ! j" unfolding e2 c1 c2 by simp
      also have "b1 ! j = buf ! j" using 5 by (intro other) auto
      finally have f: "b3 ! j = buf ! j" .
      show ?thesis unfolding f g using c3 by simp
    qed
  qed
  show ?thesis
    using r len3 nth3
    by (intro exI [of _ ?v']) (simp add: set_buffer_def n_def buf_def)
qed

lemma EmplaceWithRealoc_Done:
  fixes T :: "('a, 'e) elem_type"
  assumes wf: "well_formed v" and q: "transfers_quietly T v" and off: "offset \<le> size_m v"
  shows "\<exists>v'. EmplaceWithRealoc T offset (Inr x) v = Done v' \<and> size_m v' = size_m v \<and>
      capacity_m (data_m v') = (if size_m v = 0 then 1 else size_m v * 2) \<and>
      length (buffer_m (data_m v')) = (if size_m v = 0 then 1 else size_m v * 2) \<and>
      (\<forall>j<(if size_m v = 0 then 1 else size_m v * 2). buffer_m (data_m v') ! j =
         (if j < offset then buffer_m (data_m v) ! j
          else if j = offset then Some x
          else if j \<le> size_m v then buffer_m (data_m v) ! (j - 1)
          else None))"
proof -
  define n where "n = size_m v"
  define buf where "buf = buffer_m (data_m v)"
  define k where "k = (if n = 0 then 1 else n * 2)"
  have nk: "n < k" by (simp add: k_def)
  have offn: "offset \<le> n" using off by (simp add: n_def)
  have lv: "live buf i" if "i < n" for i
    using well_formed_live [OF wf, of i] that by (simp add: n_def buf_def)
  have qt: "transfer_raises T (the (buf ! i)) = None" if "i < n" for i
    using transfers_quietly_nth [OF q wf, of i] that by (simp add: n_def buf_def)
  define nb where "nb = (replicate k (None :: 'a option))[offset := Some x]"
  have lnb: "length nb = k" by (simp add: nb_def)
  have s0: "construct_at (buffer_m (RawMemory_sized k)) offset x = Some nb"
    using offn nk by (simp add: construct_at_def RawMemory_sized_def Allocate_def nb_def)
  have a1: "\<forall>i<offset. live buf (0 + i)" using lv offn by simp
  have a2: "0 + offset \<le> length nb" using offn nk lnb by simp
  have a3: "\<forall>i<offset. transfer_raises T (the (buf ! (0 + i))) = None" using qt offn by simp
  from UninitializedMoveOrCopy_Done [OF a1 a2 a3] obtain src1 dst1 where
    s1: "UninitializedMoveOrCopy T buf 0 offset nb 0 = Done (src1, dst1)" and
    ld1: "length dst1 = length nb" and
    nth1: "\<forall>j<length nb. dst1 ! j = (if 0 \<le> j \<and> j < 0 + offset then buf ! (0 + (j - 0)) else nb ! j)" and
    ls1: "length src1 = length buf" and lv1: "\<forall>j. live src1 j = live buf j" and
    same1: "\<forall>j<length buf. \<not> (0 \<le> j \<and> j < 0 + offset) \<longrightarrow> src1 ! j = buf ! j"
    by blast
  have lenbuf: "n \<le> length buf" using well_formed_length [OF wf] by (simp add: n_def buf_def)
  have src1_at: "src1 ! j = buf ! j" if "offset \<le> j" and "j < n" for j
    using same1 that lenbuf by simp
  have b1: "\<forall>i<n - offset. live src1 (offset + i)" using lv1 lv by simp
  have b2: "offset + 1 + (n - offset) \<le> length dst1" using offn nk ld1 lnb by simp
  have b3: "\<forall>i<n - offset. transfer_raises T (the (src1 ! (offset + i))) = None"
    using src1_at qt by simp
  from UninitializedMoveOrCopy_Done [OF b1 b2 b3] obtain src2 dst2 where
    s2: "UninitializedMoveOrCopy T src1 offset (n - offset) dst1 (offset + 1) = Done (src2, dst2)" and
    ld2: "length dst2 = length dst1" and
    nth2: "\<forall>j<length dst1. dst2 ! j =
        (if offset + 1 \<le> j \<and> j < offset + 1 + (n - offset) then src1 ! (offset + (j - (offset + 1))) else dst1 ! j)" and
    lv2: "\<forall>j. live src2 j = live src1 j"
    by blast
  have "\<forall>i<n. live src2 (0 + i)" using lv2 lv1 lv by simp
  from destroy_n_Some [OF this] obtain old where s3: "destroy_n src2 0 n = Some old" by blast
  let ?v' = "v\<lparr>data_m := fst (RawMemory_Swap ((data_m v)\<lparr>buffer_m := old\<rparr>, (RawMemory_sized k)\<lparr>buffer_m := dst2\<rparr>))\<rparr>"
  have r: "EmplaceWithRealoc T offset (Inr x) v = Done ?v'"
    unfolding EmplaceWithRealoc_def Let_def
    unfolding n_def [symmetric] buf_def [symmetric]
    unfolding k_def [symmetric]
    using s0 s1 s2 s3 offn by simp
  have bufv: "buffer_m (data_m ?v') = dst2" and capv: "capacity_m (data_m ?v') = k"
    by (simp_all add: RawMemory_Swap_def RawMemory_sized_def)
  have lend: "length dst2 = k" using ld2 ld1 lnb by simp
  have nthd: "dst2 ! j =
         (if j < offset then buf ! j
          else if j = offset then Some x
          else if j \<le> n then buf ! (j - 1)
          else None)" if j: "j < k" for j
  proof -
    have e1: "dst1 ! j = (if j < offset then buf ! j else nb ! j)"
      using nth1 j lnb by simp
    have e2: "dst2 ! j = (if offset + 1 \<le> j \<and> j < offset + 1 + (n - offset)
        then src1 ! (offset + (j - (offset + 1))) else dst1 ! j)"
      using nth2 j lnb ld1 by simp
    consider "j < offset" | "j = offset" | "offset < j" "j \<le> n" | "n < j" using offn by linarith
    then show ?thesis
    proof cases
      case 1
      have c: "(offset + 1 \<le> j \<and> j < offset + 1 + (n - offset)) = False" using 1 by auto
      show ?thesis unfolding e2 c using e1 1 by simp
    next
      case 2
      have c: "(offset + 1 \<le> j \<and> j < offset + 1 + (n - offset)) = False" using 2 by auto
      have "nb ! offset = Some x" using offn nk by (simp add: nb_def)
      then show ?thesis unfolding e2 c using e1 2 by simp
    next
      case 3
      have c: "(offset + 1 \<le> j \<and> j < offset + 1 + (n - offset)) = True" using 3 offn by auto
      have i: "offset + (j - (offset + 1)) = j - 1" using 3 by simp
      have "src1 ! (j - 1) = buf ! (j - 1)" using 3 by (intro src1_at) auto
      moreover have g: "(j < offset) = False" "j \<noteq> offset" "(j \<le> n) = True" using 3 by auto
      ultimately show ?thesis unfolding e2 c i g by simp
    next
      case 4
      have c: "(offset + 1 \<le> j \<and> j < offset + 1 + (n - offset)) = False" using 4 offn by auto
      have g: "(j < offset) = False" "j \<noteq> offset" "(j \<le> n) = False" using 4 offn by auto
      have "nb ! j = None" using j g by (simp add: nb_def)
      then show ?thesis unfolding e2 c using e1 g by simp
    qed
  qed
  show ?thesis
    using r bufv capv lend nthd
    unfolding n_def [symmetric] buf_def [symmetric]
    unfolding k_def [symmetric]
    by (intro exI [of _ ?v']) (simp add: n_def)
qed

lemma contents_insertI:
  assumes sz: "size_m v' = size_m v + 1" and off: "offset \<le> size_m v"
    and len: "size_m v \<le> length (buffer_m (data_m v))" and len': "size_m v < length (buffer_m (data_m v'))"
    and nth: "\<forall>j\<le>size_m v. buffer_m (data_m v') ! j =
         (if j < offset then buffer_m (data_m v) ! j
          else if j = offset then s
          else buffer_m (data_m v) ! (j - 1))"
  shows "contents v' = take offset (contents v) @ s # drop offset (contents v)"
proof (rule nth_equalityI)
  show "length (contents v') = length (take offset (contents v) @ s # drop offset (contents v))"
    using sz off len len' by (simp add: contents_def)
next
  fix i assume "i < length (contents v')"
  then have i: "i \<le> size_m v" using sz len' by (simp add: contents_def)
  have l: "contents v' ! i = buffer_m (data_m v') ! i" using i sz by (simp add: contents_def)
  have lt: "length (take offset (contents v)) = offset" using off len by (simp add: contents_def)
  consider "i < offset" | "i = offset" | "offset < i" by linarith
  then show "contents v' ! i = (take offset (contents v) @ s # drop offset (contents v)) ! i"
  proof cases
    case 1
    then have "(take offset (contents v) @ s # drop offset (contents v)) ! i = buffer_m (data_m v) ! i"
      using lt off by (simp add: nth_append contents_def)
    then show ?thesis using l nth i 1 by simp
  next
    case 2
    then have "(take offset (contents v) @ s # drop offset (contents v)) ! i = s"
      using lt by (simp add: nth_append)
    then show ?thesis using l nth i 2 by simp
  next
    case 3
    define d where "d = i - offset - 1"
    have d: "i = offset + Suc d" using 3 by (simp add: d_def)
    have "(take offset (contents v) @ s # drop offset (contents v)) ! i = drop offset (contents v) ! d"
      using lt d by (simp add: nth_append)
    also have "\<dots> = contents v ! (offset + d)"
      using d i len by (intro nth_drop) (simp add: contents_def)
    also have "\<dots> = buffer_m (data_m v) ! (i - 1)"
      using d i by (simp add: contents_def)
    finally show ?thesis using l nth i 3 by simp
  qed
qed

lemma shifts_quietly_nth:
  assumes "shifts_quietly T offset x v" and "well_formed v" and "offset \<le> i" and "i < size_m v"
  shows "move_ctor_raises T (the (buffer_m (data_m v) ! i)) = None"
    and "move_assign_throws T (the (buffer_m (data_m v) ! i)) = None"
proof -
  have len: "size_m v \<le> length (buffer_m (data_m v))" using assms(2) by (rule well_formed_length)
  define d where "d = i - offset"
  have d: "i = offset + d" using assms(3) by (simp add: d_def)
  have dl: "d < length (drop offset (contents v))" using d assms(4) len by (simp add: contents_def)
  then have "quiet_move T (drop offset (contents v) ! d)"
    using assms(1) by (simp add: shifts_quietly_def list_all_length)
  moreover have "drop offset (contents v) ! d = buffer_m (data_m v) ! i"
    using d assms(4) len by (simp add: contents_def)
  moreover obtain y where "buffer_m (data_m v) ! i = Some y"
    using well_formed_live [OF assms(2,4)] by (auto simp: live_def)
  ultimately show "move_ctor_raises T (the (buffer_m (data_m v) ! i)) = None"
    and "move_assign_throws T (the (buffer_m (data_m v) ! i)) = None"
    by (simp_all add: quiet_move_def Option.is_none_def)
qed

text \<open>
  What \<^verbatim>\<open>Emplace\<close> does everywhere else: on a vector that satisfies the invariant, at a
  position up to \<^verbatim>\<open>end()\<close> when the vector is full and its elements transfer without
  raising, and at a position before \<^verbatim>\<open>end()\<close> when it is not full and the moves of the
  shift do not raise, it returns the position, the size is one more, the new value is at
  the position, the elements before it are unchanged and those from it on follow, in
  their order.
\<close>

lemma Emplace_inserts:
  fixes T :: "('a, 'e) elem_type"
  assumes wf: "well_formed v" and off: "offset \<le> size_m v"
    and full: "size_m v = Capacity v \<Longrightarrow> transfers_quietly T v"
    and room: "size_m v \<noteq> Capacity v \<Longrightarrow> offset < size_m v \<and> shifts_quietly T offset x v"
  shows "\<exists>v'. Emplace T offset (Inr x) v = Done (offset, v') \<and> Size v' = Size v + 1
      \<and> contents v' = take offset (contents v) @ Some x # drop offset (contents v)
      \<and> well_formed v'"
proof -
  define buf where "buf = buffer_m (data_m v)"
  have len: "size_m v \<le> length buf" using well_formed_length [OF wf] by (simp add: buf_def)
  have "\<exists>v1. (if size_m v = Capacity v then EmplaceWithRealoc T offset (Inr x :: 'e + 'a) v
               else EmplaceWithoutRealoc T offset (Inr x) v) = Done v1
      \<and> size_m v1 = size_m v \<and> size_m v < capacity_m (data_m v1)
      \<and> length (buffer_m (data_m v1)) = capacity_m (data_m v1)
      \<and> (\<forall>j\<le>size_m v. buffer_m (data_m v1) ! j =
           (if j < offset then buf ! j else if j = offset then Some x else buf ! (j - 1)))"
  proof (cases "size_m v = Capacity v")
    case True
    define k where "k = (if size_m v = 0 then 1 else size_m v * 2)"
    have nk: "size_m v < k" by (simp add: k_def)
    note E = EmplaceWithRealoc_Done [OF wf full [OF True] off, of x, folded k_def buf_def]
    from E obtain v1 where
      r: "EmplaceWithRealoc T offset (Inr x :: 'e + 'a) v = Done v1" and sz: "size_m v1 = size_m v" and
      cap: "capacity_m (data_m v1) = k" and l1: "length (buffer_m (data_m v1)) = k" and
      nth: "\<forall>j<k. buffer_m (data_m v1) ! j =
         (if j < offset then buf ! j
          else if j = offset then Some x
          else if j \<le> size_m v then buf ! (j - 1)
          else None)"
      by blast
    have "\<forall>j\<le>size_m v. buffer_m (data_m v1) ! j =
           (if j < offset then buf ! j else if j = offset then Some x else buf ! (j - 1))"
      using nth nk by simp
    then show ?thesis using True r sz cap l1 nk by (intro exI [of _ v1]) simp
  next
    case False
    then have lt: "size_m v < capacity_m (data_m v)"
      using wf by (simp add: well_formed_def Capacity_def)
    have lb: "length buf = capacity_m (data_m v)" using wf by (simp add: well_formed_def buf_def)
    from room [OF False] have o: "offset < size_m v" and sq: "shifts_quietly T offset x v" by simp_all
    have mc: "move_ctor_raises T (the (buffer_m (data_m v) ! (size_m v - 1))) = None"
      using o by (intro shifts_quietly_nth(1) [OF sq wf]) auto
    have ma: "\<forall>i. offset \<le> i \<and> i < size_m v - 1 \<longrightarrow> move_assign_throws T (the (buffer_m (data_m v) ! i)) = None"
      using shifts_quietly_nth(2) [OF sq wf] by auto
    have mx: "move_assign_throws T x = None"
      using sq by (simp add: shifts_quietly_def Option.is_none_def)
    note E = EmplaceWithoutRealoc_Done [OF wf lt o mc ma mx, folded buf_def]
    from E obtain v1 where
      r: "EmplaceWithoutRealoc T offset (Inr x :: 'e + 'a) v = Done v1" and sz: "size_m v1 = size_m v" and
      cap: "capacity_m (data_m v1) = capacity_m (data_m v)" and
      l1: "length (buffer_m (data_m v1)) = length buf" and
      nth: "\<forall>j<length buf. buffer_m (data_m v1) ! j =
         (if j < offset then buf ! j
          else if j = offset then Some x
          else if j \<le> size_m v then buf ! (j - 1)
          else buf ! j)"
      by blast
    have "\<forall>j\<le>size_m v. buffer_m (data_m v1) ! j =
           (if j < offset then buf ! j else if j = offset then Some x else buf ! (j - 1))"
      using nth lt lb by simp
    then show ?thesis using False r sz cap l1 lt lb by (intro exI [of _ v1]) simp
  qed
  then obtain v1 where
    r: "(if size_m v = Capacity v then EmplaceWithRealoc T offset (Inr x :: 'e + 'a) v
         else EmplaceWithoutRealoc T offset (Inr x) v) = Done v1" and
    sz: "size_m v1 = size_m v" and cap: "size_m v < capacity_m (data_m v1)" and
    l1: "length (buffer_m (data_m v1)) = capacity_m (data_m v1)" and
    nth: "\<forall>j\<le>size_m v. buffer_m (data_m v1) ! j =
           (if j < offset then buf ! j else if j = offset then Some x else buf ! (j - 1))"
    by blast
  let ?v' = "v1\<lparr>size_m := size_m v1 + 1\<rparr>"
  have e: "Emplace T offset (Inr x :: 'e + 'a) v = Done (offset, ?v')"
    unfolding Emplace_def Let_def Vector_begin_def using r by (cases "size_m v = Capacity v") simp_all
  have c: "contents ?v' = take offset (contents v) @ Some x # drop offset (contents v)"
    using sz off len cap l1 nth by (intro contents_insertI) (simp_all add: buf_def)
  have "\<forall>i<size_m ?v'. buffer_m (data_m ?v') ! i \<noteq> None"
  proof (intro allI impI)
    fix i assume "i < size_m ?v'"
    then have i: "i \<le> size_m v" using sz by simp
    have lv: "buf ! j \<noteq> None" if "j < size_m v" for j
      using well_formed_live [OF wf that] by (simp add: live_def buf_def)
    consider "i < offset" | "i = offset" | "offset < i" by linarith
    then show "buffer_m (data_m ?v') ! i \<noteq> None"
    proof cases
      case 1
      then show ?thesis using nth i lv [of i] off by simp
    next
      case 2
      then show ?thesis using nth i by simp
    next
      case 3
      then have "buffer_m (data_m ?v') ! i = buf ! (i - 1)" using nth i by simp
      moreover have "i - 1 < size_m v" using 3 i by simp
      ultimately show ?thesis using lv by simp
    qed
  qed
  then have w: "well_formed ?v'" using l1 cap sz by (intro well_formedI) simp_all
  show ?thesis using e c w sz by (intro exI [of _ ?v']) (simp add: Size_def)
qed

subsection \<open>Transfers that raise\<close>

lemma uninitialized_copy_n_Throw:
  assumes "\<forall>i\<le>m. live src (f + i)" and "d + m < length dst" and "m < n"
    and "\<forall>i<m. copy_ctor_throws T (the (src ! (f + i))) = None"
    and "copy_ctor_throws T (the (src ! (f + m))) = Some e"
  shows "\<exists>dst'. uninitialized_copy_n T src f n dst d = Throw e dst' \<and> length dst' = length dst \<and>
      (\<forall>j<length dst. dst' ! j = (if d \<le> j \<and> j < d + m then None else dst ! j))"
  using assms
proof (induction m arbitrary: n f d dst)
  case 0
  then obtain n' where n: "n = Suc n'" by (cases n) auto
  have "live src f" and "copy_ctor_throws T (the (src ! f)) = Some e" and "d < length dst"
    using 0 by simp_all
  then have "uninitialized_copy_n T src f n dst d = Throw e dst" by (simp add: n)
  then show ?case by auto
next
  case (Suc m)
  then obtain n' where n: "n = Suc n'" and mn: "m < n'" by (cases n) auto
  have l: "live src f" using Suc.prems(1) by (metis add_0_right le0)
  have c: "copy_ctor_throws T (the (src ! f)) = None" using Suc.prems(4) by (metis add_0_right zero_less_Suc)
  have dl: "d < length dst" using Suc.prems(2) by simp
  let ?dst1 = "dst[d := src ! f]"
  have p1: "\<forall>i\<le>m. live src (Suc f + i)" using Suc.prems(1) by (metis add_Suc_shift Suc_le_mono)
  have p2: "Suc d + m < length ?dst1" using Suc.prems(2) by simp
  have p4: "\<forall>i<m. copy_ctor_throws T (the (src ! (Suc f + i))) = None"
    using Suc.prems(4) by (metis add_Suc_shift Suc_less_eq)
  have p5: "copy_ctor_throws T (the (src ! (Suc f + m))) = Some e" using Suc.prems(5) by simp
  from Suc.IH [OF p1 p2 mn p4 p5] obtain dst1' where
    r: "uninitialized_copy_n T src (Suc f) n' ?dst1 (Suc d) = Throw e dst1'" and
    len: "length dst1' = length ?dst1" and
    nth: "\<forall>j<length ?dst1. dst1' ! j = (if Suc d \<le> j \<and> j < Suc d + m then None else ?dst1 ! j)"
    by blast
  let ?dst' = "dst1'[d := None]"
  have "uninitialized_copy_n T src f n dst d = Throw e ?dst'"
    using l c dl r by (simp add: n)
  moreover have "length ?dst' = length dst" using len by simp
  moreover have "\<forall>j<length dst. ?dst' ! j = (if d \<le> j \<and> j < d + Suc m then None else dst ! j)"
  proof (intro allI impI)
    fix j assume j: "j < length dst"
    show "?dst' ! j = (if d \<le> j \<and> j < d + Suc m then None else dst ! j)"
    proof (cases "j = d")
      case True
      then show ?thesis using j len by simp
    next
      case False
      then have "?dst' ! j = dst1' ! j" by simp
      also have "\<dots> = (if Suc d \<le> j \<and> j < Suc d + m then None else ?dst1 ! j)" using nth j by simp
      finally show ?thesis using False by auto
    qed
  qed
  ultimately show ?case by blast
qed

lemma uninitialized_move_n_Throw:
  assumes "\<forall>i\<le>m. live src (f + i)" and "d + m < length dst" and "m < n"
    and "\<forall>i<m. move_ctor_raises T (the (src ! (f + i))) = None"
    and "move_ctor_raises T (the (src ! (f + m))) = Some e"
  shows "\<exists>src' dst'. uninitialized_move_n T src f n dst d = Throw e (src', dst') \<and> length dst' = length dst \<and>
      (\<forall>j<length dst. dst' ! j = (if d \<le> j \<and> j < d + m then None else dst ! j)) \<and>
      length src' = length src \<and> (\<forall>j. live src' j = live src j)"
  using assms
proof (induction m arbitrary: n f d dst src)
  case 0
  then obtain n' where n: "n = Suc n'" by (cases n) auto
  have "live src f" and "move_ctor_raises T (the (src ! f)) = Some e" and "d < length dst"
    using 0 by simp_all
  then have "uninitialized_move_n T src f n dst d = Throw e (src, dst)" by (simp add: n)
  then show ?case by auto
next
  case (Suc m)
  then obtain n' where n: "n = Suc n'" and mn: "m < n'" by (cases n) auto
  have l: "live src f" using Suc.prems(1) by (metis add_0_right le0)
  have c: "move_ctor_raises T (the (src ! f)) = None" using Suc.prems(4) by (metis add_0_right zero_less_Suc)
  have dl: "d < length dst" using Suc.prems(2) by simp
  let ?dst1 = "dst[d := src ! f]"
  let ?src1 = "src[f := Some (moved_from T (the (src ! f)))]"
  have same: "\<And>i. ?src1 ! (Suc f + i) = src ! (Suc f + i)" by simp
  have lsame: "live ?src1 j = live src j" for j
    using l by (cases "j = f") (auto simp: live_def)
  have p1: "\<forall>i\<le>m. live ?src1 (Suc f + i)"
    using Suc.prems(1) lsame by (metis add_Suc_shift Suc_le_mono)
  have p2: "Suc d + m < length ?dst1" using Suc.prems(2) by simp
  have p4: "\<forall>i<m. move_ctor_raises T (the (?src1 ! (Suc f + i))) = None"
    using Suc.prems(4) by (metis add_Suc_shift Suc_less_eq same)
  have p5: "move_ctor_raises T (the (?src1 ! (Suc f + m))) = Some e" using Suc.prems(5) by simp
  from Suc.IH [OF p1 p2 mn p4 p5] obtain src' dst1' where
    r: "uninitialized_move_n T ?src1 (Suc f) n' ?dst1 (Suc d) = Throw e (src', dst1')" and
    len: "length dst1' = length ?dst1" and
    nth: "\<forall>j<length ?dst1. dst1' ! j = (if Suc d \<le> j \<and> j < Suc d + m then None else ?dst1 ! j)" and
    slen: "length src' = length ?src1" and slv: "\<forall>j. live src' j = live ?src1 j"
    by blast
  let ?dst' = "dst1'[d := None]"
  have "uninitialized_move_n T src f n dst d = Throw e (src', ?dst')"
    using l c dl r by (simp add: n)
  moreover have "length ?dst' = length dst" using len by simp
  moreover have "length src' = length src" using slen by simp
  moreover have "\<forall>j. live src' j = live src j" using slv lsame by simp
  moreover have "\<forall>j<length dst. ?dst' ! j = (if d \<le> j \<and> j < d + Suc m then None else dst ! j)"
  proof (intro allI impI)
    fix j assume j: "j < length dst"
    show "?dst' ! j = (if d \<le> j \<and> j < d + Suc m then None else dst ! j)"
    proof (cases "j = d")
      case True
      then show ?thesis using j len by simp
    next
      case False
      then have "?dst' ! j = dst1' ! j" by simp
      also have "\<dots> = (if Suc d \<le> j \<and> j < Suc d + m then None else ?dst1 ! j)" using nth j by simp
      finally show ?thesis using False by auto
    qed
  qed
  ultimately show ?case by blast
qed

lemma UninitializedMoveOrCopy_Throw:
  assumes "\<forall>i\<le>m. live src (f + i)" and "d + m < length dst" and "m < n"
    and "\<forall>i<m. transfer_raises T (the (src ! (f + i))) = None"
    and "transfer_raises T (the (src ! (f + m))) = Some e"
  shows "\<exists>src' dst'. UninitializedMoveOrCopy T src f n dst d = Throw e (src', dst') \<and> length dst' = length dst \<and>
      (\<forall>j<length dst. dst' ! j = (if d \<le> j \<and> j < d + m then None else dst ! j)) \<and>
      length src' = length src \<and> (\<forall>j. live src' j = live src j)"
proof (cases "nothrow_move_constructible T \<or> \<not> copy_constructible T")
  case True
  then have q: "\<forall>i<m. move_ctor_raises T (the (src ! (f + i))) = None"
    and t: "move_ctor_raises T (the (src ! (f + m))) = Some e"
    using assms(4,5) by (simp_all add: transfer_raises_def)
  from uninitialized_move_n_Throw [OF assms(1,2,3) q t] show ?thesis
    using True by (simp add: UninitializedMoveOrCopy_def)
next
  case False
  then have q: "\<forall>i<m. copy_ctor_throws T (the (src ! (f + i))) = None"
    and t: "copy_ctor_throws T (the (src ! (f + m))) = Some e"
    using assms(4,5) by (simp_all add: transfer_raises_def)
  from uninitialized_copy_n_Throw [OF assms(1,2,3) q t] obtain dst' where
    "uninitialized_copy_n T src f n dst d = Throw e dst'" and "length dst' = length dst" and
    "\<forall>j<length dst. dst' ! j = (if d \<le> j \<and> j < d + m then None else dst ! j)"
    by blast
  then show ?thesis
    using False by (intro exI [of _ src] exI [of _ dst']) (simp add: UninitializedMoveOrCopy_def)
qed

text \<open>
  The defect of \<^verbatim>\<open>EmplaceWithRealoc\<close> in general. On a full vector that satisfies the
  invariant, when the element of index \<open>i\<close>, at or after the position, is the first of the
  vector that raises on transfer: \<^verbatim>\<open>Emplace\<close> returns, the exception is lost, and the vector it
  leaves has size + 1 and a new buffer in which the new element is the only live object.
\<close>

lemma Emplace_suffix_failure_returns:
  fixes T :: "('a, 'e) elem_type"
  assumes wf: "well_formed v" and full: "size_m v = Capacity v"
    and off: "offset \<le> i" and i: "i < size_m v"
    and quiet: "\<forall>j<i. transfer_raises T (the (buffer_m (data_m v) ! j)) = None"
    and raises: "transfer_raises T (the (buffer_m (data_m v) ! i)) = Some e"
  shows "Emplace T offset (Inr x) v =
     Done (offset, \<lparr>data_m = \<lparr>buffer_m = (replicate (size_m v * 2) None)[offset := Some x],
                                capacity_m = size_m v * 2\<rparr>,
                    size_m = size_m v + 1\<rparr>)"
proof -
  define n where "n = size_m v"
  define buf where "buf = buffer_m (data_m v)"
  define k where "k = (if n = 0 then 1 else n * 2)"
  have npos: "0 < n" and offn: "offset < n" and k2: "k = n * 2" using off i by (simp_all add: n_def k_def)
  have lv: "live buf j" if "j < n" for j
    using well_formed_live [OF wf, of j] that by (simp add: n_def buf_def)
  have lenbuf: "n \<le> length buf" using well_formed_length [OF wf] by (simp add: n_def buf_def)
  define nb where "nb = (replicate k (None :: 'a option))[offset := Some x]"
  have lnb: "length nb = k" by (simp add: nb_def)
  have s0: "construct_at (buffer_m (RawMemory_sized k)) offset x = Some nb"
    using offn k2 by (simp add: construct_at_def RawMemory_sized_def Allocate_def nb_def)
  have a1: "\<forall>j<offset. live buf (0 + j)" using lv offn by simp
  have a2: "0 + offset \<le> length nb" using offn k2 lnb by simp
  have a3: "\<forall>j<offset. transfer_raises T (the (buf ! (0 + j))) = None"
    using quiet off by (simp add: buf_def)
  from UninitializedMoveOrCopy_Done [OF a1 a2 a3] obtain src1 dst1 where
    s1: "UninitializedMoveOrCopy T buf 0 offset nb 0 = Done (src1, dst1)" and
    ld1: "length dst1 = length nb" and
    nth1: "\<forall>j<length nb. dst1 ! j = (if 0 \<le> j \<and> j < 0 + offset then buf ! (0 + (j - 0)) else nb ! j)" and
    ls1: "length src1 = length buf" and lv1: "\<forall>j. live src1 j = live buf j" and
    same1: "\<forall>j<length buf. \<not> (0 \<le> j \<and> j < 0 + offset) \<longrightarrow> src1 ! j = buf ! j"
    by blast
  have src1_at: "src1 ! j = buf ! j" if "offset \<le> j" and "j < n" for j
    using same1 that lenbuf by simp
  define m where "m = i - offset"
  have im: "offset + m = i" using off by (simp add: m_def)
  have b1: "\<forall>j\<le>m. live src1 (offset + j)" using lv1 lv im i by (simp add: n_def)
  have b2: "offset + 1 + m < length dst1" using im i ld1 lnb k2 by (simp add: n_def)
  have b3: "m < n - offset" using im i by (simp add: n_def)
  have b4: "\<forall>j<m. transfer_raises T (the (src1 ! (offset + j))) = None"
  proof (intro allI impI)
    fix j assume j: "j < m"
    then have "src1 ! (offset + j) = buf ! (offset + j)" using im i by (intro src1_at) (simp_all add: n_def)
    moreover have "transfer_raises T (the (buf ! (offset + j))) = None"
      using quiet j im by (simp add: buf_def)
    ultimately show "transfer_raises T (the (src1 ! (offset + j))) = None" by simp
  qed
  have b5: "transfer_raises T (the (src1 ! (offset + m))) = Some e"
  proof -
    have "src1 ! (offset + m) = buf ! i" using im i off by (simp add: src1_at n_def)
    then show ?thesis using raises im by (simp add: buf_def)
  qed
  from UninitializedMoveOrCopy_Throw [OF b1 b2 b3 b4 b5] obtain src2 dst2 where
    s2: "UninitializedMoveOrCopy T src1 offset (n - offset) dst1 (offset + 1) = Throw e (src2, dst2)" and
    ld2: "length dst2 = length dst1" and
    nth2: "\<forall>j<length dst1. dst2 ! j = (if offset + 1 \<le> j \<and> j < offset + 1 + m then None else dst1 ! j)" and
    lv2: "\<forall>j. live src2 j = live src1 j"
    by blast
  have at1: "dst1 ! j = (if j < offset then buf ! j else nb ! j)" if "j < k" for j
    using nth1 that lnb by simp
  have at2: "dst2 ! j = (if offset + 1 \<le> j \<and> j < offset + 1 + m then None else dst1 ! j)" if "j < k" for j
    using nth2 that lnb ld1 by simp
  have "\<forall>j<offset. live dst2 (0 + j)"
  proof (intro allI impI)
    fix j assume j: "j < offset"
    then have jk: "j < k" using offn k2 by simp
    have c: "(offset + 1 \<le> j \<and> j < offset + 1 + m) = False" using j by auto
    have "dst2 ! j = buf ! j" using at2 [OF jk] at1 [OF jk] j unfolding c by simp
    moreover have "live buf j" using j offn by (intro lv) simp
    ultimately show "live dst2 (0 + j)" using jk ld2 ld1 lnb by (simp add: live_def)
  qed
  from destroy_n_Some [OF this] obtain new'' where
    s3: "destroy_n dst2 0 offset = Some new''" and ln: "length new'' = length dst2" and
    nth3: "\<forall>j<length dst2. new'' ! j = (if 0 \<le> j \<and> j < 0 + offset then None else dst2 ! j)"
    by blast
  have "\<forall>j<n. live src2 (0 + j)" using lv2 lv1 lv by simp
  from destroy_n_Some [OF this] obtain old where s4: "destroy_n src2 0 n = Some old" by blast
  let ?v1 = "v\<lparr>data_m := fst (RawMemory_Swap ((data_m v)\<lparr>buffer_m := old\<rparr>, (RawMemory_sized k)\<lparr>buffer_m := new''\<rparr>))\<rparr>"
  have r: "EmplaceWithRealoc T offset (Inr x) v = Done ?v1"
    unfolding EmplaceWithRealoc_def Let_def
    unfolding n_def [symmetric] buf_def [symmetric]
    unfolding k_def [symmetric]
    using s0 s1 s2 s3 s4 offn by simp
  have eqb: "new'' = nb"
  proof (rule nth_equalityI)
    show "length new'' = length nb" using ln ld2 ld1 by simp
  next
    fix j assume "j < length new''"
    then have jk: "j < k" using ln ld2 ld1 lnb by simp
    have e3: "new'' ! j = (if j < offset then None else dst2 ! j)" using nth3 jk ld2 ld1 lnb by simp
    show "new'' ! j = nb ! j"
    proof (cases "j < offset")
      case True
      then show ?thesis using e3 jk by (simp add: nb_def)
    next
      case False
      show ?thesis
      proof (cases "offset + 1 \<le> j \<and> j < offset + 1 + m")
        case True
        then have "new'' ! j = None" using e3 at2 [OF jk] False by simp
        moreover have "nb ! j = None" using True jk by (simp add: nb_def)
        ultimately show ?thesis by simp
      next
        case F2: False
        have c: "(offset + 1 \<le> j \<and> j < offset + 1 + m) = False" using F2 by simp
        have "dst2 ! j = nb ! j" using at2 [OF jk] at1 [OF jk] False unfolding c by simp
        then show ?thesis using e3 False by simp
      qed
    qed
  qed
  have "Emplace T offset (Inr x) v = Done (offset, ?v1\<lparr>size_m := size_m ?v1 + 1\<rparr>)"
    unfolding Emplace_def Let_def Vector_begin_def using r full by simp
  moreover have "?v1\<lparr>size_m := size_m ?v1 + 1\<rparr> =
      \<lparr>data_m = \<lparr>buffer_m = (replicate (size_m v * 2) None)[offset := Some x], capacity_m = size_m v * 2\<rparr>,
       size_m = size_m v + 1\<rparr>"
    using eqb k2 by (simp add: RawMemory_Swap_def RawMemory_sized_def nb_def n_def)
  ultimately show ?thesis by simp
qed

section \<open>The claims\<close>

text \<open>
  C1. The code departs from the claim at \<^verbatim>\<open>pos == end()\<close> on the path that does not
  reallocate (everywhere else it inserts as the claim says, lemma \<open>Emplace_inserts\<close>). On
  the vector \<open>[''a'']\<close> of capacity 2, \<^verbatim>\<open>Emplace\<close> at \<^verbatim>\<open>end()\<close> is undefined: the last element
  is moved into the new slot, which leaves an empty string behind, and \<^verbatim>\<open>std::move_backward\<close>
  is called with its first iterator one past its last. On the empty vector of capacity 1
  the slot before the buffer is read.
\<close>

theorem Emplace_at_end_in_place_undefined:
  "Emplace string_type 1 (Inr ''b'') (vector_of [Some ''a'', None] 1) = Undefined
   \<and> move_construct_in string_type [Some ''a'', None] 1 0 = Done [Some [], Some ''a'']
   \<and> move_backward string_type [Some [], Some ''a''] 1 0 1 = Undefined
   \<and> Emplace int_type 0 (Inr 9) (vector_of [None] 0) = Undefined"
  by code_simp

theorem Emplace_at_end_in_place_undefined_witness:
  "\<forall>r v'. Emplace string_type 1 (Inr ''b'') (vector_of [Some ''a'', None] 1) \<noteq> Done (r, v')"
  using Emplace_at_end_in_place_undefined by simp

text \<open>
  C2. The scenario on \<^verbatim>\<open>Vector<int>\<close>, each call on the vector the call before left:
  three \<^verbatim>\<open>PushBack\<close> calls from the empty vector give \<open>[1, 2, 3]\<close>, size 3; \<^verbatim>\<open>Insert\<close> at
  position 1 of the value 9 gives \<open>[1, 9, 2, 3]\<close>, size 4; \<^verbatim>\<open>Erase\<close> at position 0 gives
  \<open>[9, 2, 3]\<close>, size 3; \<^verbatim>\<open>PopBack\<close> gives \<open>[9, 2]\<close>, size 2.
\<close>

theorem scenario_push_insert_erase_pop:
  "PushBack int_type (move_construct int_type 1) Vector_default = Done (vector_of [Some 1] 1)
   \<and> PushBack int_type (move_construct int_type 2) (vector_of [Some 1] 1) = Done (vector_of [Some 1, Some 2] 2)
   \<and> PushBack int_type (move_construct int_type 3) (vector_of [Some 1, Some 2] 2)
       = Done (vector_of [Some 1, Some 2, Some 3, None] 3)
   \<and> contents (vector_of [Some 1, Some 2, Some (3::int), None] 3) = [Some 1, Some 2, Some 3]
   \<and> Size (vector_of [Some 1, Some 2, Some (3::int), None] 3) = 3
   \<and> Insert int_type 1 9 (vector_of [Some 1, Some 2, Some 3, None] 3)
       = Done (1, vector_of [Some 1, Some 9, Some 2, Some 3] 4)
   \<and> contents (vector_of [Some 1, Some 9, Some 2, Some (3::int)] 4) = [Some 1, Some 9, Some 2, Some 3]
   \<and> Size (vector_of [Some 1, Some 9, Some 2, Some (3::int)] 4) = 4
   \<and> Erase int_type 0 (vector_of [Some 1, Some 9, Some 2, Some 3] 4)
       = Done (0, vector_of [Some 9, Some 2, Some 3, None] 3)
   \<and> contents (vector_of [Some 9, Some 2, Some (3::int), None] 3) = [Some 9, Some 2, Some 3]
   \<and> Size (vector_of [Some 9, Some 2, Some (3::int), None] 3) = 3
   \<and> (PopBack (vector_of [Some 9, Some 2, Some (3::int), None] 3) :: (string, int Vector, int Vector) outcome)
       = Done (vector_of [Some 9, Some 2, None, None] 2)
   \<and> contents (vector_of [Some 9, Some (2::int), None, None] 2) = [Some 9, Some 2]
   \<and> Size (vector_of [Some 9, Some (2::int), None, None] 2) = 2"
  by code_simp

theorem scenario_push_insert_erase_pop_witness:
  "\<exists>v. (PopBack (vector_of [Some 9, Some 2, Some (3::int), None] 3) :: (string, int Vector, int Vector) outcome) = Done v
      \<and> contents v = [Some 9, Some 2] \<and> Size v = 2"
  using scenario_push_insert_erase_pop by simp

text \<open>
  C3. The code departs from the claim in the third \<^verbatim>\<open>catch\<close> block of \<^verbatim>\<open>EmplaceWithRealoc\<close>
  (lemma \<open>Emplace_suffix_failure_returns\<close>). The vector \<open>[7, 13]\<close> is full and its element
  type raises when 13 is copied, in the transfer of the suffix: \<^verbatim>\<open>Emplace\<close> at position 0
  returns instead of raising, with size 3 and a buffer whose only live object is the new
  element.
\<close>

theorem Emplace_swallows_suffix_exception:
  "Emplace picky_type 0 (Inr 5) (vector_of [Some 7, Some 13] 2)
     = Done (0, vector_of [Some 5, None, None, None] 3)
   \<and> copy_ctor_throws picky_type 13 = Some ''thirteen''
   \<and> uninitialized_copy_n picky_type [Some 7, Some 13] 0 2 [Some 5, None, None, None] 1
     = Throw ''thirteen'' [Some 5, None, None, None]"
  by code_simp

theorem Emplace_swallows_suffix_exception_witness:
  "\<forall>e s. Emplace picky_type 0 (Inr 5) (vector_of [Some 7, Some 13] 2) \<noteq> Throw e s"
  using Emplace_swallows_suffix_exception by simp

text \<open>
  C4. On a vector whose size equals its capacity, whatever the element type and the
  elements are: when the constructor call of the new element raises, \<^verbatim>\<open>PushBack\<close> and
  \<^verbatim>\<open>EmplaceBack\<close> raise that exception and leave the vector as it was. When the call builds
  \<open>x\<close>, the vector satisfies the invariant and its elements transfer without raising, they
  return with capacity \<open>max 1 (2 * size)\<close>, with \<open>x\<close> in the slot of index size and the old
  elements before it.
\<close>

theorem PushBack_strong_guarantee:
  fixes T :: "('a, 'e) elem_type"
  assumes "Size v = Capacity v"
  shows "PushBack T (Inl e) v = Throw e v \<and> EmplaceBack T (Inl e) v = Throw e v \<and>
     (well_formed v \<and> transfers_quietly T v \<longrightarrow>
        (\<exists>v'. PushBack T (Inr x) v = Done v' \<and> Capacity v' = max 1 (2 * Size v)
           \<and> buffer_m (data_m v') ! Size v = Some x \<and> contents v' = contents v @ [Some x]) \<and>
        (\<exists>r v'. EmplaceBack T (Inr x) v = Done (r, v') \<and> Capacity v' = max 1 (2 * Size v)
           \<and> buffer_m (data_m v') ! Size v = Some x \<and> contents v' = contents v @ [Some x]))"
proof (intro conjI impI)
  define k where "k = (if size_m v = 0 then 1 else size_m v * 2)"
  have eq: "size_m v = Capacity v" using assms by (simp add: Size_def)
  have "size_m v \<le> capacity_m (RawMemory_sized k :: 'a RawMemory)"
    by (simp add: k_def RawMemory_sized_def)
  then have c: "construct_plus (RawMemory_sized k :: 'a RawMemory) (size_m v) (Inl e :: 'e + 'a) v = Throw e v"
    by (rule construct_plus_Throw)
  show "PushBack T (Inl e) v = Throw e v"
    unfolding PushBack_def k_def [symmetric] using eq c by simp
  show "EmplaceBack T (Inl e) v = Throw e v"
    unfolding EmplaceBack_def k_def [symmetric] using eq c by simp
next
  assume h: "well_formed v \<and> transfers_quietly T v"
  have eq: "size_m v = Capacity v" using assms by (simp add: Size_def)
  from h PushBack_Done [of v T x] obtain v' where
    "PushBack T (Inr x) v = Done v'" and
    "Capacity v' = (if size_m v = Capacity v then (if size_m v = 0 then 1 else size_m v * 2) else Capacity v)" and
    "buffer_m (data_m v') ! size_m v = Some x" and "contents v' = contents v @ [Some x]"
    by blast
  then show "\<exists>v'. PushBack T (Inr x) v = Done v' \<and> Capacity v' = max 1 (2 * Size v)
           \<and> buffer_m (data_m v') ! Size v = Some x \<and> contents v' = contents v @ [Some x]"
    using eq by (intro exI [of _ v']) (simp add: Size_def max_def)
next
  assume h: "well_formed v \<and> transfers_quietly T v"
  have eq: "size_m v = Capacity v" using assms by (simp add: Size_def)
  from h EmplaceBack_Done [of v T x] obtain v' where
    "EmplaceBack T (Inr x) v = Done (size_m v, v')" and
    "Capacity v' = (if size_m v < Capacity v then Capacity v else (if size_m v = 0 then 1 else size_m v * 2))" and
    "buffer_m (data_m v') ! size_m v = Some x" and "contents v' = contents v @ [Some x]"
    by blast
  then show "\<exists>r v'. EmplaceBack T (Inr x) v = Done (r, v') \<and> Capacity v' = max 1 (2 * Size v)
           \<and> buffer_m (data_m v') ! Size v = Some x \<and> contents v' = contents v @ [Some x]"
    using eq by (intro exI [of _ "size_m v"] exI [of _ v']) (simp add: Size_def max_def)
qed

theorem PushBack_strong_guarantee_witness:
  "Size (vector_of [Some (7::int), Some 13] 2) = Capacity (vector_of [Some (7::int), Some (13::int)] 2)
   \<and> PushBack picky_type (Inl ''no'') (vector_of [Some (7::int), Some 13] 2) = Throw ''no'' (vector_of [Some (7::int), Some 13] 2)
   \<and> EmplaceBack picky_type (Inl ''no'') (vector_of [Some (7::int), Some 13] 2) = Throw ''no'' (vector_of [Some (7::int), Some 13] 2)
   \<and> Size (vector_of [Some (7::int), Some 8] 2) = Capacity (vector_of [Some (7::int), Some (8::int)] 2)
   \<and> well_formed (vector_of [Some (7::int), Some (8::int)] 2) \<and> transfers_quietly picky_type (vector_of [Some (7::int), Some 8] 2)
   \<and> (\<exists>v'. PushBack picky_type (Inr 5) (vector_of [Some (7::int), Some 8] 2) = Done v' \<and> Capacity v' = 4
         \<and> buffer_m (data_m v') ! 2 = Some 5 \<and> contents v' = [Some (7::int), Some 8, Some 5])"
proof -
  let ?a = "vector_of [Some 7, Some (13::int)] 2" and ?b = "vector_of [Some 7, Some (8::int)] 2"
  have h: "Size ?a = Capacity ?a" "Size ?b = Capacity ?b" "well_formed ?b \<and> transfers_quietly picky_type ?b"
    by code_simp+
  have c: "contents ?b = [Some 7, Some 8]" "Size ?b = 2"
    by code_simp+
  show ?thesis
    using PushBack_strong_guarantee [OF h(1), of picky_type "''no''"]
      PushBack_strong_guarantee [OF h(2), of picky_type "''no''" 5] h c
    by auto
qed

text \<open>
  C5. Any number of \<^verbatim>\<open>PushBack\<close> calls on the empty vector, with constructor calls that
  build the values \<open>xs\<close>, of an element type that does not raise on these values when they
  are transferred: every call returns, the capacities before the first call and after
  each call are 0, 1, 2, 4, 4, 8, ... (after \<open>k > 0\<close> calls the least power of two that is
  at least \<open>k\<close>), and over the \<open>n > 0\<close> calls the capacity changes \<open>ceillog2 n + 1\<close> times.
\<close>

theorem PushBack_capacity_doubling:
  fixes T :: "('a, 'e) elem_type"
  assumes "\<forall>x\<in>set xs. transfer_raises T x = None"
  shows "capacity_trace T (map Inr xs) Vector_default = map doubling_capacity [0 ..< length xs + 1]
     \<and> length (capacity_trace T (map Inr xs) Vector_default) = length xs + 1
     \<and> (\<forall>k. 0 < k \<and> k \<le> length xs \<longrightarrow>
           capacity_trace T (map Inr xs) Vector_default ! k = 2 ^ ceillog2 k
           \<and> k \<le> 2 ^ ceillog2 k \<and> 2 ^ ceillog2 k < 2 * k)
     \<and> capacity_trace T (map Inr xs) Vector_default ! 0 = 0
     \<and> changes (capacity_trace T (map Inr xs) Vector_default)
          = (if xs = [] then 0 else ceillog2 (length xs) + 1)"
proof -
  let ?v = "Vector_default :: 'a Vector"
  have wf: "well_formed ?v"
    by (simp add: well_formed_def Vector_default_def RawMemory_default_def)
  have q: "transfers_quietly T ?v"
    by (simp add: transfers_quietly_def contents_def Vector_default_def)
  have c: "Capacity ?v = doubling_capacity (size_m ?v)"
    by (simp add: Capacity_def Vector_default_def RawMemory_default_def doubling_capacity_def)
  have sz: "size_m ?v = 0" by (simp add: Vector_default_def)
  have tr: "capacity_trace T (map Inr xs) ?v = map doubling_capacity [0 ..< length xs + 1]"
    using capacity_trace_doubling [OF wf q assms c] sz by simp
  have nth: "capacity_trace T (map Inr xs) ?v ! k = doubling_capacity k" if "k \<le> length xs" for k
  proof -
    have "k < length [0 ..< length xs + 1]" using that by simp
    then have "map doubling_capacity [0 ..< length xs + 1] ! k = doubling_capacity ([0 ..< length xs + 1] ! k)"
      by (rule nth_map)
    also have "[0 ..< length xs + 1] ! k = k" using that by (metis add_0 less_Suc_eq_le nth_upt Suc_eq_plus1)
    finally show ?thesis using tr by simp
  qed
  show ?thesis
  proof (intro conjI allI impI)
    show "capacity_trace T (map Inr xs) ?v = map doubling_capacity [0 ..< length xs + 1]" by (rule tr)
    show "length (capacity_trace T (map Inr xs) ?v) = length xs + 1" using tr by simp
    show "capacity_trace T (map Inr xs) ?v ! 0 = 0" using nth [of 0] by (simp add: doubling_capacity_def)
    show "changes (capacity_trace T (map Inr xs) ?v) = (if xs = [] then 0 else ceillog2 (length xs) + 1)"
      using tr changes_doubling [of "length xs"] by simp
  next
    fix k assume k: "0 < k \<and> k \<le> length xs"
    then show "capacity_trace T (map Inr xs) ?v ! k = 2 ^ ceillog2 k"
      using nth [of k] by (simp add: doubling_capacity_def)
    show "k \<le> 2 ^ ceillog2 k" by (rule le_two_power_ceillog2)
    show "2 ^ ceillog2 k < 2 * k" using k by (intro two_power_ceillog2_gt) simp
  qed
qed

theorem PushBack_capacity_doubling_witness:
  "list_all (\<lambda>x. transfer_raises int_type x = None) [10, 20, 30, 40, 50]
   \<and> capacity_trace int_type (map Inr [10, 20, 30, 40, 50]) Vector_default = [0, 1, 2, 4, 4, 8]
   \<and> changes (capacity_trace int_type (map Inr [10, 20, 30, 40, 50]) Vector_default) = ceillog2 5 + 1
   \<and> ceillog2 5 = 3"
proof -
  have h: "\<forall>x\<in>set [10, 20, 30, 40, 50::int]. transfer_raises int_type x = None"
    by (simp add: transfer_raises_def int_type_def move_ctor_raises_def)
  have l: "ceillog2 5 = 3" by (rule ceillog2_eqI) simp_all
  have t: "capacity_trace int_type (map Inr [10, 20, 30, 40, 50]) Vector_default = [0, 1, 2, 4, 4, 8]"
    by code_simp
  show ?thesis
    using PushBack_capacity_doubling [OF h] h l t by simp
qed

text \<open>
  C6, as the claim states it, fails: after the move assignment of the vector \<open>[2, 3]\<close>
  at address 1 to the vector \<open>[1]\<close> at address 0, the source holds one element.
\<close>

theorem move_assign_source_not_empty:
  "Size (MoveAssign 0 1 two_vectors 1) = 1 \<and> contents (MoveAssign 0 1 two_vectors 1) = [Some 1]"
  by code_simp

text \<open>
  C6, amended. The move assignment between two distinct vector objects exchanges their
  members: the target gets the buffer, the capacity and the size of the source, whole,
  and the source gets those of the target, so that it is empty exactly when the target
  was; it satisfies the invariant and can be destroyed when the target did. Assigning an
  object to itself changes nothing. After the move construction from a source, the new
  object has the members of the source and the source is the empty vector, of size and
  capacity 0. No other object changes, and no operation of the element type takes part.
\<close>

theorem move_exchanges_storage:
  "(this \<noteq> rhs \<longrightarrow>
      MoveAssign this rhs \<sigma> this = \<sigma> rhs \<and> MoveAssign this rhs \<sigma> rhs = \<sigma> this
      \<and> (Size (MoveAssign this rhs \<sigma> rhs) = 0 \<longleftrightarrow> Size (\<sigma> this) = 0)
      \<and> (well_formed (\<sigma> this) \<longrightarrow>
            well_formed (MoveAssign this rhs \<sigma> rhs) \<and> Vector_dtor (MoveAssign this rhs \<sigma> rhs))
      \<and> (\<forall>a. a \<noteq> this \<and> a \<noteq> rhs \<longrightarrow> MoveAssign this rhs \<sigma> a = \<sigma> a))
   \<and> MoveAssign this this \<sigma> = \<sigma>
   \<and> (this \<noteq> rhs \<longrightarrow>
      Vector_move this rhs \<sigma> this = \<sigma> rhs \<and> Vector_move this rhs \<sigma> rhs = Vector_default
      \<and> Size (Vector_move this rhs \<sigma> rhs) = 0 \<and> Capacity (Vector_move this rhs \<sigma> rhs) = 0
      \<and> well_formed (Vector_move this rhs \<sigma> rhs) \<and> Vector_dtor (Vector_move this rhs \<sigma> rhs)
      \<and> (\<forall>a. a \<noteq> this \<and> a \<noteq> rhs \<longrightarrow> Vector_move this rhs \<sigma> a = \<sigma> a))"
proof (intro conjI impI allI)
  show "MoveAssign this this \<sigma> = \<sigma>" by (simp add: MoveAssign_def)
next
  assume d: "this \<noteq> rhs"
  show a1: "MoveAssign this rhs \<sigma> this = \<sigma> rhs" and a2: "MoveAssign this rhs \<sigma> rhs = \<sigma> this"
    using d by (simp_all add: MoveAssign_def Swap_distinct)
  show "Size (MoveAssign this rhs \<sigma> rhs) = 0 \<longleftrightarrow> Size (\<sigma> this) = 0" using a2 by simp
  show "well_formed (MoveAssign this rhs \<sigma> rhs)" if "well_formed (\<sigma> this)" using a2 that by simp
  show "Vector_dtor (MoveAssign this rhs \<sigma> rhs)" if "well_formed (\<sigma> this)"
    using a2 that by (simp add: well_formed_dtor)
  show "MoveAssign this rhs \<sigma> a = \<sigma> a" if "a \<noteq> this \<and> a \<noteq> rhs" for a
    using d that by (simp add: MoveAssign_def Swap_distinct)
  have e: "\<lparr>data_m = RawMemory_default, size_m = 0\<rparr> = (Vector_default :: 'a Vector)"
    by (simp add: Vector_default_def)
  show "Vector_move this rhs \<sigma> this = \<sigma> rhs"
    using d by (simp add: Vector_move_def Swap_distinct)
  show m2: "Vector_move this rhs \<sigma> rhs = Vector_default"
    using d by (simp add: Vector_move_def Swap_distinct e)
  show "Size (Vector_move this rhs \<sigma> rhs) = 0" and "Capacity (Vector_move this rhs \<sigma> rhs) = 0"
    using m2 by (simp_all add: Size_def Capacity_def Vector_default_def RawMemory_default_def)
  show w: "well_formed (Vector_move this rhs \<sigma> rhs)"
    using m2 by (simp add: well_formed_def Vector_default_def RawMemory_default_def)
  show "Vector_dtor (Vector_move this rhs \<sigma> rhs)" using w by (rule well_formed_dtor)
  show "Vector_move this rhs \<sigma> a = \<sigma> a" if "a \<noteq> this \<and> a \<noteq> rhs" for a
    using d that by (simp add: Vector_move_def Swap_distinct)
qed

theorem move_exchanges_storage_witness:
  "(0::nat) \<noteq> 1 \<and> well_formed (two_vectors 0)
   \<and> MoveAssign 0 1 two_vectors 0 = vector_of [Some 2, Some 3] 2
   \<and> MoveAssign 0 1 two_vectors 1 = vector_of [Some 1] 1
   \<and> well_formed (MoveAssign 0 1 two_vectors 1) \<and> Vector_dtor (MoveAssign 0 1 two_vectors 1)
   \<and> MoveAssign 0 1 two_vectors 2 = two_vectors 2
   \<and> (2::nat) \<noteq> 1 \<and> Vector_move 2 1 two_vectors 2 = vector_of [Some 2, Some 3] 2
   \<and> Size (Vector_move 2 1 two_vectors 1) = 0 \<and> Capacity (Vector_move 2 1 two_vectors 1) = 0
   \<and> Vector_move 2 1 two_vectors 0 = two_vectors 0"
proof -
  have h: "(0::nat) \<noteq> 1" "(2::nat) \<noteq> 1" "well_formed (two_vectors 0)" by code_simp+
  have c: "two_vectors 0 = vector_of [Some 1] 1" "two_vectors 1 = vector_of [Some 2, Some 3] 2"
    by (simp_all add: two_vectors_def)
  show ?thesis
    using move_exchanges_storage [of 0 1 two_vectors] move_exchanges_storage [of 2 1 two_vectors] h c
    by auto
qed



text \<open>
  C8, as the claim states it, fails: \<^verbatim>\<open>PopBack\<close> on the empty vector meets no assertion
  that fails.
\<close>

theorem PopBack_empty_not_asserted:
  "(PopBack (Vector_default :: int Vector) :: (string, int Vector, int Vector) outcome) = Undefined"
  by code_simp

text \<open>
  C8, amended. \<^verbatim>\<open>PopBack\<close> has the precondition size > 0. No assertion guards it: on a
  vector of size 0 the one assertion on the way, that of \<^verbatim>\<open>RawMemory::operator+\<close>, holds, and
  the call is undefined. On a vector of positive size that satisfies the invariant,
  \<^verbatim>\<open>PopBack\<close> returns; it has destroyed the object of the last slot below the size and no
  other, and has decremented the size: the elements before the last are as they were.
\<close>

theorem PopBack_effect:
  "(Size v = 0 \<longrightarrow> PopBack v = Undefined)
   \<and> (well_formed v \<and> 0 < Size v \<longrightarrow>
        (\<exists>v'. PopBack v = Done v' \<and> Size v' = Size v - 1 \<and> Capacity v' = Capacity v
           \<and> buffer_m (data_m v') = (buffer_m (data_m v))[Size v - 1 := None]
           \<and> contents v' = butlast (contents v) \<and> well_formed v'))"
proof (intro conjI impI)
  assume "Size v = 0"
  then show "PopBack v = Undefined"
    by (simp add: PopBack_def Size_def RawMemory_plus_def)
next
  assume h: "well_formed v \<and> 0 < Size v"
  then have wf: "well_formed v" and pos: "0 < size_m v" by (simp_all add: Size_def)
  let ?buf = "(buffer_m (data_m v))[size_m v - 1 := None]"
  let ?v' = "(set_buffer v ?buf)\<lparr>size_m := size_m v - 1\<rparr>"
  have le: "size_m v \<le> capacity_m (data_m v)" and len: "length (buffer_m (data_m v)) = capacity_m (data_m v)"
    using wf by (simp_all add: well_formed_def)
  have l: "live (buffer_m (data_m v)) (size_m v - 1)"
    using pos by (intro well_formed_live [OF wf]) simp
  have d: "destroy_n (buffer_m (data_m v)) (size_m v - 1) 1 = Some ?buf"
  proof -
    have "destroy_n (buffer_m (data_m v)) (size_m v - 1) (Suc 0) = Some ?buf"
      using l by simp
    then show ?thesis by simp
  qed
  have r: "PopBack v = Done ?v'"
    using le pos d by (simp add: PopBack_def RawMemory_plus_def)
  have c: "contents ?v' = butlast (contents v)"
    using pos well_formed_length [OF wf]
    by (simp add: contents_def set_buffer_def butlast_take)
  have "\<forall>i<size_m ?v'. buffer_m (data_m ?v') ! i \<noteq> None"
    using well_formed_live [OF wf] by (simp add: set_buffer_def live_def)
  then have w: "well_formed ?v'"
    using len le by (intro well_formedI) (simp_all add: set_buffer_def)
  show "\<exists>v'. PopBack v = Done v' \<and> Size v' = Size v - 1 \<and> Capacity v' = Capacity v
           \<and> buffer_m (data_m v') = (buffer_m (data_m v))[Size v - 1 := None]
           \<and> contents v' = butlast (contents v) \<and> well_formed v'"
    using r c w by (intro exI [of _ ?v']) (simp add: Size_def Capacity_def set_buffer_def)
qed

theorem PopBack_effect_witness:
  "Size (vector_of [None :: int option] 0) = 0
   \<and> (PopBack (vector_of [None :: int option] 0) :: (string, int Vector, int Vector) outcome) = Undefined
   \<and> well_formed (vector_of [Some 9, Some 2, Some (3::int), None] 3)
   \<and> 0 < Size (vector_of [Some 9, Some 2, Some (3::int), None] 3)
   \<and> (\<exists>v'. (PopBack (vector_of [Some 9, Some 2, Some (3::int), None] 3) :: (string, int Vector, int Vector) outcome)
          = Done v' \<and> Size v' = 2 \<and> Capacity v' = 4
          \<and> buffer_m (data_m v') = [Some 9, Some 2, None, None] \<and> contents v' = [Some 9, Some 2])"
proof -
  let ?a = "vector_of [None :: int option] 0" and ?b = "vector_of [Some 9, Some 2, Some (3::int), None] 3"
  have h: "Size ?a = 0" "well_formed ?b \<and> 0 < Size ?b" by code_simp+
  have c: "Size ?b = 3" "Capacity ?b = 4" "contents ?b = [Some 9, Some 2, Some 3]"
    "buffer_m (data_m ?b) = [Some 9, Some 2, Some 3, None]"
    by code_simp+
  show ?thesis
    using PopBack_effect [of ?a, where 'b = string] PopBack_effect [of ?b, where 'b = string] h c
    by auto
qed



text \<open>
  C10. On a vector that satisfies the invariant, and whose elements do not raise when
  they are transferred if it is full, \<^verbatim>\<open>EmplaceBack(args...)\<close> with a constructor call that builds the value
  \<open>x\<close> returns a reference to the slot of index size - 1 of the vector it leaves; that
  slot is inside the buffer and holds \<open>x\<close>, the elements before it are the old ones, and
  the capacity is the old one when the size was below it (the path in place) and
  \<open>max 1 (2 * size)\<close> otherwise (the path that reallocates).
\<close>

theorem EmplaceBack_reference:
  fixes T :: "('a, 'e) elem_type"
  assumes "well_formed v" and "Size v < Capacity v \<or> transfers_quietly T v"
  shows "\<exists>r v'. EmplaceBack T (Inr x) v = Done (r, v') \<and> r = Size v' - 1 \<and> Size v' = Size v + 1
      \<and> r < length (buffer_m (data_m v')) \<and> buffer_m (data_m v') ! r = Some x
      \<and> contents v' = contents v @ [Some x]
      \<and> Capacity v' = (if Size v < Capacity v then Capacity v else max 1 (2 * Size v))"
proof -
  from EmplaceBack_Done [OF assms [unfolded Size_def], of x] obtain v' where
    r: "EmplaceBack T (Inr x) v = Done (size_m v, v')" and sz: "size_m v' = size_m v + 1" and
    cap: "Capacity v' = (if size_m v < Capacity v then Capacity v else (if size_m v = 0 then 1 else size_m v * 2))" and
    new: "buffer_m (data_m v') ! size_m v = Some x" and wf': "well_formed v'" and
    c: "contents v' = contents v @ [Some x]"
    by blast
  have "size_m v < length (buffer_m (data_m v'))"
    using wf' sz by (simp add: well_formed_def)
  moreover have "Capacity v' = (if Size v < Capacity v then Capacity v else max 1 (2 * Size v))"
    using cap by (simp add: Size_def max_def)
  ultimately show ?thesis
    using r sz new c by (intro exI [of _ "size_m v"] exI [of _ v']) (simp add: Size_def)
qed

theorem EmplaceBack_reference_witness:
  "well_formed (vector_of [Some (13::int), None] 1)
   \<and> Size (vector_of [Some (13::int), None] 1) < Capacity (vector_of [Some (13::int), None] 1)
   \<and> (\<exists>r v'. EmplaceBack picky_type (Inr 7) (vector_of [Some 13, None] 1) = Done (r, v') \<and> r = 1
         \<and> buffer_m (data_m v') ! r = Some 7 \<and> contents v' = [Some 13, Some 7] \<and> Capacity v' = 2)
   \<and> well_formed (vector_of [Some (1::int)] 1) \<and> transfers_quietly picky_type (vector_of [Some 1] 1)
   \<and> (\<exists>r v'. EmplaceBack picky_type (Inr 7) (vector_of [Some 1] 1) = Done (r, v') \<and> r = 1
         \<and> buffer_m (data_m v') ! r = Some 7 \<and> contents v' = [Some 1, Some 7] \<and> Capacity v' = 2)"
proof -
  let ?a = "vector_of [Some (13::int), None] 1" and ?b = "vector_of [Some (1::int)] 1"
  have a: "well_formed ?a" "Size ?a < Capacity ?a \<or> transfers_quietly picky_type ?a"
    by code_simp+
  have b: "well_formed ?b" "Size ?b < Capacity ?b \<or> transfers_quietly picky_type ?b"
    by code_simp+
  have c: "contents ?a = [Some 13]" "Size ?a = 1" "Capacity ?a = 2"
    "contents ?b = [Some 1]" "Size ?b = 1" "Capacity ?b = 1" "transfers_quietly picky_type ?b"
    by code_simp+
  show ?thesis
    using EmplaceBack_reference [OF a, of 7] EmplaceBack_reference [OF b, of 7] a(1) b(1) c
    by auto
qed

end
